theory Spec2Isabelle
  imports Main "HOL-Library.AList"
begin

section \<open>Exceptions and results\<close>

text \<open>
  The Python exceptions that the interpreter in \<^verbatim>\<open>sphinx_matlab/grammar/parser.py\<close> can
  raise. \<open>IncludedParserNotFound\<close> is the repository's own exception (raised by
  \<^verbatim>\<open>get_parser\<close>); the others are the built-in exceptions of the operations used
  (\<^verbatim>\<open>StringIO.seek\<close> with a negative offset, an attribute read on a \<^verbatim>\<open>str\<close>, an
  unknown group index, subscripting \<^verbatim>\<open>None\<close>, \<^verbatim>\<open>int()\<close> on a non-numeral,
  \<^verbatim>\<open>re.compile\<close> on a bad pattern).

  A computation has type \<open>(error + 'a) option\<close>: \<open>None\<close> is "no result" (the recursion
  budget is used up, which stands for a run that does not return), \<open>Some (Inl e)\<close> is a
  raised exception, \<open>Some (Inr v)\<close> a returned value.
\<close>

datatype error =
    IncludedParserNotFound string
  | ValueError
  | AttributeError
  | IndexError
  | TypeError
  | RegexCompileError

section \<open>The stream (\<^verbatim>\<open>io.StringIO\<close>)\<close>

text \<open>
  A \<^verbatim>\<open>StringIO\<close> is its text and its position. Positions handed around by the parser are
  Python ints; the position of the stream itself is never negative, because
  \<^verbatim>\<open>seek\<close> refuses a negative offset.
\<close>

record stream =
  content :: string
  position :: nat

definition newline :: char where
  "newline = CHR 0x0A"

definition stream_tell :: "stream \<Rightarrow> int" where
  "stream_tell st = int (position st)"

definition stream_seek :: "stream \<Rightarrow> int \<Rightarrow> error + stream" where
  "stream_seek st n = (if n < 0 then Inl ValueError else Inr (st\<lparr>position := nat n\<rparr>))"

text \<open>\<^verbatim>\<open>read(size)\<close>: a negative size reads to the end of the text.\<close>

definition stream_read :: "stream \<Rightarrow> int \<Rightarrow> string \<times> stream" where
  "stream_read st n =
     (let avail = drop (position st) (content st);
          s = (if n < 0 then avail else take (nat n) avail)
      in (s, st\<lparr>position := position st + length s\<rparr>))"

fun upto_newline :: "string \<Rightarrow> string" where
  "upto_newline [] = []"
| "upto_newline (c # cs) = (if c = newline then [c] else c # upto_newline cs)"

definition stream_readline :: "stream \<Rightarrow> string \<times> stream" where
  "stream_readline st =
     (let s = upto_newline (drop (position st) (content st))
      in (s, st\<lparr>position := position st + length s\<rparr>))"

text \<open>\<^verbatim>\<open>str.split("\n")\<close>: always at least one piece.\<close>

fun split_newline :: "string \<Rightarrow> string list" where
  "split_newline [] = [[]]"
| "split_newline (c # cs) =
     (if c = newline then [] # split_newline cs
      else (case split_newline cs of
              [] \<Rightarrow> [[c]]
            | l # ls \<Rightarrow> (c # l) # ls))"

text \<open>The two static helpers of \<^verbatim>\<open>GrammarParser\<close>.\<close>

definition stream_end_pos :: "stream \<Rightarrow> int \<times> stream" where
  "stream_end_pos st = (int (length (content st)), st)"

definition stream_read_pos :: "stream \<Rightarrow> int \<Rightarrow> int \<Rightarrow> error + (string \<times> stream)" where
  "stream_read_pos st start end' =
     (case stream_seek st start of
        Inl e \<Rightarrow> Inl e
      | Inr st1 \<Rightarrow>
          (let (s, st2) = stream_read st1 (end' - start)
           in case stream_seek st2 end' of
                Inl e \<Rightarrow> Inl e
              | Inr st3 \<Rightarrow> Inr (s, st3)))"

section \<open>The regex engine (\<^verbatim>\<open>onigurumacffi\<close>), taken as a parameter\<close>

text \<open>
  The engine is not part of the repository. A compiled pattern is its source text
  (\<^verbatim>\<open>_pattern\<close>) and its \<^verbatim>\<open>search\<close> on a line; a match object gives \<^verbatim>\<open>start()\<close>,
  \<^verbatim>\<open>end()\<close>, and for a group index the group's text and span, or nothing when the index
  is unknown (the engine raises \<^verbatim>\<open>IndexError\<close>).
\<close>

record rmatch =
  m_start :: nat
  m_end :: nat
  m_group :: "int \<Rightarrow> string option"
  m_span :: "int \<Rightarrow> (int \<times> int) option"

record regex =
  pattern :: string
  rsearch :: "string \<Rightarrow> rmatch option"

text \<open>Python's \<^verbatim>\<open>sub in s\<close> on strings.\<close>

fun starts_with :: "string \<Rightarrow> string \<Rightarrow> bool" where
  "starts_with [] s = True"
| "starts_with (a # as) [] = False"
| "starts_with (a # as) (c # cs) = (a = c \<and> starts_with as cs)"

fun str_contains :: "string \<Rightarrow> string \<Rightarrow> bool" where
  "str_contains sub [] = (sub = [])"
| "str_contains sub (c # cs) = (starts_with sub (c # cs) \<or> str_contains sub cs)"

section \<open>Parsed elements and rules\<close>

text \<open>
  \<^verbatim>\<open>ParsedElement(token, content, captures)\<close>,
  \<^verbatim>\<open>ParsedElementBlock(token, content, captures, begin, end)\<close>, and the bare string
  that the recursion guard of \<^verbatim>\<open>parse\<close> puts in the element list.
\<close>

datatype element =
    ParsedElement string string "element list"
  | ParsedElementBlock string string "element list" "element option" "element option"
  | RawText string

text \<open>
  A \<^verbatim>\<open>GrammarParser\<close> object. \<open>uid\<close> is the object's identity (the dictionaries of
  \<^verbatim>\<open>match_patterns\<close> are keyed by the objects themselves, which hash by identity): the
  number of the top-level construction followed by the path to the object below it.
  What \<^verbatim>\<open>set_parser\<close> returns is a \<open>pref\<close>: the object itself for \<^verbatim>\<open>$self\<close>, a
  name (a \<^verbatim>\<open>str\<close>) for any other include, a new parser otherwise.
\<close>

datatype rule =
  Rule (uid: "nat list") (key: string) (token: string) (contentToken: string) (comment: string)
       (match: "regex option") (begin': "regex option") (end': "regex option")
       (captures: "(int \<times> pref) list") (beginCaptures: "(int \<times> pref) list")
       (endCaptures: "(int \<times> pref) list") (patterns: "pref list")
and pref = PSelf | PName string | PDirect rule

type_synonym span = "int \<times> int"

text \<open>The triple returned by \<^verbatim>\<open>parse\<close>, and the one returned by \<^verbatim>\<open>search\<close>.\<close>

type_synonym presult = "bool \<times> element list \<times> span option"
type_synonym sresult = "string option \<times> element list \<times> int option"

type_synonym 'a comp = "(error + 'a) option"

text \<open>The type of \<^verbatim>\<open>parse\<close> as seen by its callers: parser, stream, startPos, closePos.\<close>

type_synonym parse_fn = "rule \<Rightarrow> stream \<Rightarrow> int \<Rightarrow> int option \<Rightarrow> (presult \<times> stream) comp"

section \<open>\<^verbatim>\<open>search\<close>\<close>

definition regex_lookbehind_max :: int where
  "regex_lookbehind_max = 100"

definition regex_lookbehind_step :: int where
  "regex_lookbehind_step = 5"

text \<open>
  The \<^verbatim>\<open>for\<close> loop over the lines of the window: the first line with a match, and
  \<open>linePos\<close>, the summed length of the lines before it.
\<close>

fun first_match :: "regex \<Rightarrow> string list \<Rightarrow> int \<Rightarrow> (rmatch \<times> int) option" where
  "first_match rx [] linePos = None"
| "first_match rx (line # lines) linePos =
     (case rsearch rx line of
        Some m \<Rightarrow> Some (m, linePos)
      | None \<Rightarrow> first_match rx lines (linePos + int (length line)))"

text \<open>
  One pass of the \<^verbatim>\<open>while\<close> loop at a given \<open>lookbehind\<close> (after the clipping at the
  start of the stream): the match and \<open>matchingToStreamPos\<close>, or \<open>None\<close> when the pass
  ends in \<^verbatim>\<open>continue\<close>. The position the pass leaves in the stream is not returned: both
  exits of the loop seek before they read it.
\<close>

definition search_pass ::
  "regex \<Rightarrow> stream \<Rightarrow> int \<Rightarrow> int option \<Rightarrow> bool \<Rightarrow> int \<Rightarrow> error + (rmatch \<times> int) option" where
  "search_pass rx st initPos readSize onlyLeadingWhiteSpace lookbehind =
     (case stream_seek st (initPos - lookbehind) of
        Inl e \<Rightarrow> Inl e
      | Inr st1 \<Rightarrow>
          (if readSize \<noteq> None \<and> readSize \<noteq> Some 0 then
             (let (txt, st2) = stream_read st1 (the readSize + lookbehind);
                  lines = map (\<lambda>line. line @ [newline]) (split_newline txt)
              in case first_match rx lines 0 of
                   None \<Rightarrow> Inr None
                 | Some (m, linePos) \<Rightarrow> Inr (Some (m, linePos + initPos - lookbehind)))
           else
             (let (line, st2) = stream_readline st1
              in case rsearch rx line of
                   None \<Rightarrow> Inr None
                 | Some m \<Rightarrow>
                     if onlyLeadingWhiteSpace \<and> (\<exists>ch \<in> set (take (m_start m) line). ch \<noteq> CHR '' '')
                     then Inr None
                     else Inr (Some (m, initPos + lookbehind)))))"

text \<open>
  The \<^verbatim>\<open>while lookbehind <= regex_lookbehind_max and streamCanLookbehind\<close> loop with its
  \<^verbatim>\<open>else\<close> clause: \<open>Inr None\<close> is the \<^verbatim>\<open>else\<close> exit (no match), \<open>Inr (Some (m, p))\<close> the
  \<^verbatim>\<open>break\<close>. The list is a record of the loop's passes, the \<open>lookbehind\<close> each one scanned
  with; \<^verbatim>\<open>search\<close> does not read it.
\<close>

function search_loop ::
  "regex \<Rightarrow> stream \<Rightarrow> int \<Rightarrow> int option \<Rightarrow> bool \<Rightarrow> bool \<Rightarrow> int \<Rightarrow> bool
     \<Rightarrow> int list \<times> (error + (rmatch \<times> int) option)" where
  "search_loop rx st initPos readSize onlyLeadingWhiteSpace performLookbehind
       lookbehind streamCanLookbehind =
     (if lookbehind \<le> regex_lookbehind_max \<and> streamCanLookbehind then
        (let can1 = (if \<not> performLookbehind then False else streamCanLookbehind);
             (lb, can2) = (if initPos - lookbehind < 0 then (initPos, False) else (lookbehind, can1))
         in case search_pass rx st initPos readSize onlyLeadingWhiteSpace lb of
              Inl e \<Rightarrow> ([lb], Inl e)
            | Inr (Some found) \<Rightarrow> ([lb], Inr (Some found))
            | Inr None \<Rightarrow>
                (let (passes, r) =
                       search_loop rx st initPos readSize onlyLeadingWhiteSpace performLookbehind
                         (lb + regex_lookbehind_step) can2
                 in (lb # passes, r)))
      else ([], Inr None))"
  by pat_completeness auto
termination
  by (relation "measure (\<lambda>(rx, st, initPos, readSize, olw, perform, lookbehind, can).
        if can \<and> lookbehind \<le> regex_lookbehind_max
        then nat (regex_lookbehind_max + 1 - lookbehind) else 0)")
     (auto simp: regex_lookbehind_max_def regex_lookbehind_step_def split: if_splits)

declare search_loop.simps [simp del]

text \<open>
  The loop as \<^verbatim>\<open>search\<close> runs it: \<^verbatim>\<open>initPos = stream.tell()\<close>,
  \<^verbatim>\<open>lookbehind, streamCanLookbehind = 0, True\<close> and
  \<^verbatim>\<open>performLookbehind = "(?<" in regex._pattern\<close>. \<open>find_match\<close> is its outcome,
  \<open>search_passes\<close> the \<open>lookbehind\<close> of each pass it made.
\<close>

definition perform_lookbehind :: "regex \<Rightarrow> bool" where
  "perform_lookbehind rx = str_contains ''(?<'' (pattern rx)"

definition find_match ::
  "regex \<Rightarrow> stream \<Rightarrow> int option \<Rightarrow> bool \<Rightarrow> error + (rmatch \<times> int) option" where
  "find_match rx st readSize onlyLeadingWhiteSpace =
     snd (search_loop rx st (stream_tell st) readSize onlyLeadingWhiteSpace
            (perform_lookbehind rx) 0 True)"

definition search_passes :: "regex \<Rightarrow> stream \<Rightarrow> int option \<Rightarrow> bool \<Rightarrow> int list" where
  "search_passes rx st readSize onlyLeadingWhiteSpace =
     fst (search_loop rx st (stream_tell st) readSize onlyLeadingWhiteSpace
            (perform_lookbehind rx) 0 True)"

text \<open>
  A value of a captures dictionary is what \<^verbatim>\<open>set_parser\<close> returned. \<^verbatim>\<open>search\<close> reads
  \<^verbatim>\<open>.token\<close> and calls \<^verbatim>\<open>.parse\<close> on it without going through \<^verbatim>\<open>get_parser\<close>, so a
  name (a \<^verbatim>\<open>str\<close>) has neither: \<open>None\<close> here is the \<^verbatim>\<open>AttributeError\<close>.
\<close>

fun capture_parser :: "rule \<Rightarrow> pref \<Rightarrow> rule option" where
  "capture_parser self PSelf = Some self"
| "capture_parser self (PDirect r) = Some r"
| "capture_parser self (PName n) = None"

text \<open>
  The loop \<^verbatim>\<open>for groupId, parser in parsers.items()\<close>. The result \<open>None\<close> for the elements
  is the exit through \<^verbatim>\<open>if not groupMatched\<close>; \<^verbatim>\<open>search\<close> then rewinds and returns.
\<close>

fun parse_groups ::
  "parse_fn \<Rightarrow> rule \<Rightarrow> rmatch \<Rightarrow> int \<Rightarrow> (int \<times> pref) list \<Rightarrow> stream \<Rightarrow> element list
     \<Rightarrow> (element list option \<times> stream) comp" where
  "parse_groups pf self matching matchingToStreamPos [] st elements = Some (Inr (Some elements, st))"
| "parse_groups pf self matching matchingToStreamPos ((groupId, parser) # rest) st elements =
     (case m_group matching groupId of
        None \<Rightarrow> Some (Inl IndexError)
      | Some grp \<Rightarrow>
          if grp = [] then parse_groups pf self matching matchingToStreamPos rest st elements
          else
            (case m_span matching groupId of
               None \<Rightarrow> Some (Inl IndexError)
             | Some gspan \<Rightarrow>
                 (case capture_parser self parser of
                    None \<Rightarrow> Some (Inl AttributeError)
                  | Some p \<Rightarrow>
                      (case pf p st (fst gspan + matchingToStreamPos)
                                (Some (snd gspan + matchingToStreamPos)) of
                         None \<Rightarrow> None
                       | Some (Inl e) \<Rightarrow> Some (Inl e)
                       | Some (Inr ((groupMatched, parsed_elements, sp), st1)) \<Rightarrow>
                           if \<not> groupMatched then Some (Inr (None, st1))
                           else parse_groups pf self matching matchingToStreamPos rest st1
                                  (elements @ parsed_elements)))))"

text \<open>The last two lines of \<^verbatim>\<open>search\<close>: \<^verbatim>\<open>stream.seek(closePos)\<close> and the return.\<close>

definition search_return ::
  "string \<Rightarrow> element list \<Rightarrow> int \<Rightarrow> int \<Rightarrow> stream \<Rightarrow> (sresult \<times> stream) comp" where
  "search_return matchedString elements startPos closePos st =
     (case stream_seek st closePos of
        Inl e \<Rightarrow> Some (Inl e)
      | Inr st1 \<Rightarrow> Some (Inr ((Some matchedString, elements, Some startPos), st1)))"

text \<open>The two places where \<^verbatim>\<open>search\<close> gives up: \<^verbatim>\<open>stream.seek(initPos)\<close> and the return.\<close>

definition search_fail :: "int \<Rightarrow> stream \<Rightarrow> (sresult \<times> stream) comp" where
  "search_fail initPos st =
     (case stream_seek st initPos of
        Inl e \<Rightarrow> Some (Inl e)
      | Inr st1 \<Rightarrow> Some (Inr ((None, [], None), st1)))"

text \<open>
  \<^verbatim>\<open>search(self, regex, stream, parsers, readSize, onlyLeadingWhiteSpace)\<close>. The first
  argument is \<^verbatim>\<open>parse\<close>, for the calls on the capture groups. The element made for group
  0 is built without captures.
\<close>

definition search ::
  "parse_fn \<Rightarrow> rule \<Rightarrow> regex \<Rightarrow> stream \<Rightarrow> (int \<times> pref) list \<Rightarrow> int option \<Rightarrow> bool
     \<Rightarrow> (sresult \<times> stream) comp" where
  "search pf self rx st parsers readSize onlyLeadingWhiteSpace =
     (let initPos = stream_tell st
      in case find_match rx st readSize onlyLeadingWhiteSpace of
           Inl e \<Rightarrow> Some (Inl e)
         | Inr None \<Rightarrow> search_fail initPos st
         | Inr (Some (matching, matchingToStreamPos)) \<Rightarrow>
             (let startPos = matchingToStreamPos + int (m_start matching);
                  closePos = matchingToStreamPos + int (m_end matching)
              in case stream_seek st startPos of
                   Inl e \<Rightarrow> Some (Inl e)
                 | Inr st1 \<Rightarrow>
                     (let (matchedString, st2) = stream_read st1 (closePos - startPos)
                      in case map_of parsers 0 of
                           Some parser0 \<Rightarrow>
                             (case capture_parser self parser0 of
                                None \<Rightarrow> Some (Inl AttributeError)
                              | Some p \<Rightarrow>
                                  search_return matchedString
                                    [ParsedElement (token p) matchedString []] startPos closePos st2)
                         | None \<Rightarrow>
                             if parsers \<noteq> [] then
                               (case parse_groups pf self matching matchingToStreamPos parsers st2 [] of
                                  None \<Rightarrow> None
                                | Some (Inl e) \<Rightarrow> Some (Inl e)
                                | Some (Inr (None, st3)) \<Rightarrow> search_fail initPos st3
                                | Some (Inr (Some elements, st3)) \<Rightarrow>
                                    if elements = []
                                    then Some (Inr ((Some matchedString, [], Some startPos), st3))
                                    else search_return matchedString elements startPos closePos st3)
                             else search_return matchedString [] startPos closePos st2)))"

section \<open>\<^verbatim>\<open>match_patterns\<close>\<close>

text \<open>
  \<^verbatim>\<open>get_parser\<close>: a name is looked up in \<^verbatim>\<open>PARSERSTORE\<close>, anything else is returned as it
  is. \<open>self\<close> is there because \<^verbatim>\<open>$self\<close> was stored as the object itself.
\<close>

type_synonym parserstore = "string \<Rightarrow> rule option"

fun get_parser :: "parserstore \<Rightarrow> rule \<Rightarrow> pref \<Rightarrow> error + rule" where
  "get_parser store self (PName callId) =
     (case store callId of
        Some p \<Rightarrow> Inr p
      | None \<Rightarrow> Inl (IncludedParserNotFound callId))"
| "get_parser store self PSelf = Inr self"
| "get_parser store self (PDirect r) = Inr r"

text \<open>\<^verbatim>\<open>[self.get_parser(callId) for callId in self.patterns]\<close>\<close>

fun get_parsers :: "parserstore \<Rightarrow> rule \<Rightarrow> pref list \<Rightarrow> error + rule list" where
  "get_parsers store self [] = Inr []"
| "get_parsers store self (callId # rest) =
     (case get_parser store self callId of
        Inl e \<Rightarrow> Inl e
      | Inr p \<Rightarrow>
          (case get_parsers store self rest of
             Inl e \<Rightarrow> Inl e
           | Inr ps \<Rightarrow> Inr (p # ps)))"

text \<open>
  \<^verbatim>\<open>parserLastElements\<close> and \<^verbatim>\<open>parserLastPos\<close>, which are written together: for a parser
  (its identity) the elements and the position of its last successful parse, or nothing.
\<close>

type_synonym candidate = "element list \<times> span option"
type_synonym memo = "nat list \<Rightarrow> candidate option"

text \<open>\<^verbatim>\<open>parserLastPos[parser] and parserLastPos[parser][0] >= patternStartPos\<close>\<close>

definition memo_lookup :: "memo \<Rightarrow> rule \<Rightarrow> int \<Rightarrow> candidate option" where
  "memo_lookup m parser patternStartPos =
     (case m (uid parser) of
        Some (els, Some (s, e)) \<Rightarrow>
          if s \<ge> patternStartPos then Some (els, Some (s, e)) else None
      | _ \<Rightarrow> None)"

text \<open>
  The \<^verbatim>\<open>if\<close> that replaces \<open>(patternElements, patternPos)\<close> by the candidate. Subscripting
  a position that is \<^verbatim>\<open>None\<close> raises.
\<close>

definition mp_select :: "candidate \<Rightarrow> candidate \<Rightarrow> error + candidate" where
  "mp_select opt best =
     (if fst best = [] then Inr opt
      else (case (snd opt, snd best) of
              (Some (s, e), Some (ps, pe)) \<Rightarrow>
                if s < ps \<or> (s = ps \<and> e > pe) then Inr opt else Inr best
            | _ \<Rightarrow> Inl TypeError))"

text \<open>The \<^verbatim>\<open>for parser in parsers\<close> loop of one iteration.\<close>

fun mp_for ::
  "parse_fn \<Rightarrow> rule list \<Rightarrow> int \<Rightarrow> int \<Rightarrow> stream \<Rightarrow> memo \<Rightarrow> candidate
     \<Rightarrow> (stream \<times> memo \<times> candidate) comp" where
  "mp_for pf [] patternStartPos closePos st m best = Some (Inr (st, m, best))"
| "mp_for pf (parser # rest) patternStartPos closePos st m best =
     (case memo_lookup m parser patternStartPos of
        Some opt \<Rightarrow>
          (case mp_select opt best of
             Inl e \<Rightarrow> Some (Inl e)
           | Inr best1 \<Rightarrow> mp_for pf rest patternStartPos closePos st m best1)
      | None \<Rightarrow>
          (case pf parser st patternStartPos (Some closePos) of
             None \<Rightarrow> None
           | Some (Inl e) \<Rightarrow> Some (Inl e)
           | Some (Inr ((patternMatched, optPatternElements, optPatternPos), st1)) \<Rightarrow>
               if patternMatched then
                 (case mp_select (optPatternElements, optPatternPos) best of
                    Inl e \<Rightarrow> Some (Inl e)
                  | Inr best1 \<Rightarrow>
                      mp_for pf rest patternStartPos closePos st1
                        (m(uid parser \<mapsto> (optPatternElements, optPatternPos))) best1)
               else mp_for pf rest patternStartPos closePos st1 m best))"

text \<open>
  The candidates of one iteration, in the order of the parsers: what the \<^verbatim>\<open>for\<close> loop
  gets for each parser, from the dictionaries or from a successful \<^verbatim>\<open>parse\<close>, with the
  loop's own threading of the stream and the dictionaries. \<open>select_all\<close> is the loop's
  \<^verbatim>\<open>if\<close> applied to them one after the other.
\<close>

fun mp_candidates ::
  "parse_fn \<Rightarrow> rule list \<Rightarrow> int \<Rightarrow> int \<Rightarrow> stream \<Rightarrow> memo \<Rightarrow> candidate list comp" where
  "mp_candidates pf [] patternStartPos closePos st m = Some (Inr [])"
| "mp_candidates pf (parser # rest) patternStartPos closePos st m =
     (case memo_lookup m parser patternStartPos of
        Some opt \<Rightarrow>
          (case mp_candidates pf rest patternStartPos closePos st m of
             None \<Rightarrow> None
           | Some (Inl e) \<Rightarrow> Some (Inl e)
           | Some (Inr cs) \<Rightarrow> Some (Inr (opt # cs)))
      | None \<Rightarrow>
          (case pf parser st patternStartPos (Some closePos) of
             None \<Rightarrow> None
           | Some (Inl e) \<Rightarrow> Some (Inl e)
           | Some (Inr ((patternMatched, optPatternElements, optPatternPos), st1)) \<Rightarrow>
               if patternMatched then
                 (case mp_candidates pf rest patternStartPos closePos st1
                         (m(uid parser \<mapsto> (optPatternElements, optPatternPos))) of
                    None \<Rightarrow> None
                  | Some (Inl e) \<Rightarrow> Some (Inl e)
                  | Some (Inr cs) \<Rightarrow> Some (Inr ((optPatternElements, optPatternPos) # cs)))
               else mp_candidates pf rest patternStartPos closePos st1 m))"

fun select_all :: "candidate \<Rightarrow> candidate list \<Rightarrow> error + candidate" where
  "select_all best [] = Inr best"
| "select_all best (opt # rest) =
     (case mp_select opt best of
        Inl e \<Rightarrow> Inl e
      | Inr best1 \<Rightarrow> select_all best1 rest)"

text \<open>
  The \<^verbatim>\<open>while patternStartPos < closePos\<close> loop. Nothing in it bounds the number of
  iterations, so it runs on a budget: \<open>None\<close> when the budget is used up.
\<close>

fun mp_while ::
  "nat \<Rightarrow> parse_fn \<Rightarrow> rule list \<Rightarrow> int \<Rightarrow> int \<Rightarrow> stream \<Rightarrow> memo \<Rightarrow> element list
     \<Rightarrow> (element list \<times> stream) comp" where
  "mp_while 0 pf parsers patternStartPos closePos st m captured = None"
| "mp_while (Suc k) pf parsers patternStartPos closePos st m captured =
     (if patternStartPos < closePos then
        (case mp_for pf parsers patternStartPos closePos st m ([], None) of
           None \<Rightarrow> None
         | Some (Inl e) \<Rightarrow> Some (Inl e)
         | Some (Inr (st1, m1, (patternElements, patternPos))) \<Rightarrow>
             if patternElements \<noteq> [] then
               (case patternPos of
                  None \<Rightarrow> Some (Inl TypeError)
                | Some (s, e) \<Rightarrow>
                    mp_while k pf parsers e closePos st1 m1 (captured @ patternElements))
             else Some (Inr (captured, st1)))
      else Some (Inr (captured, st)))"

definition match_patterns ::
  "nat \<Rightarrow> parse_fn \<Rightarrow> parserstore \<Rightarrow> rule \<Rightarrow> stream \<Rightarrow> int \<Rightarrow> int
     \<Rightarrow> (element list \<times> stream) comp" where
  "match_patterns k pf store self st startPos closePos =
     (case get_parsers store self (patterns self) of
        Inl e \<Rightarrow> Some (Inl e)
      | Inr parsers \<Rightarrow>
          (case stream_seek st startPos of
             Inl e \<Rightarrow> Some (Inl e)
           | Inr st1 \<Rightarrow> mp_while k pf parsers startPos closePos st1 Map.empty []))"

section \<open>\<^verbatim>\<open>parse\<close>\<close>

text \<open>
  \<^verbatim>\<open>parse\<close> is one function with four branches, taken in this order: \<^verbatim>\<open>self.match\<close>,
  \<^verbatim>\<open>self.begin and self.end\<close>, \<^verbatim>\<open>self.patterns\<close>, and the rest. Each branch is a
  definition below; \<open>parse_body\<close> is the function, with its two recursive callees as
  arguments: \<open>pf\<close> is \<^verbatim>\<open>parse\<close> (called by \<^verbatim>\<open>search\<close> on capture groups) and \<open>mp\<close> is
  \<^verbatim>\<open>match_patterns\<close>.
\<close>

type_synonym mp_fn = "rule \<Rightarrow> stream \<Rightarrow> int \<Rightarrow> int \<Rightarrow> (element list \<times> stream) comp"

text \<open>\<^verbatim>\<open>parsedEnd = stream.tell(); return True, elements, (parsedStart, parsedEnd)\<close>\<close>

definition parse_return :: "element list \<Rightarrow> int \<Rightarrow> stream \<Rightarrow> (presult \<times> stream) comp" where
  "parse_return elements parsedStart st =
     Some (Inr ((True, elements, Some (parsedStart, stream_tell st)), st))"

text \<open>\<^verbatim>\<open>readSize=closePos - startPos + 1 if closePos is not None else None\<close>\<close>

definition read_size :: "int option \<Rightarrow> int \<Rightarrow> int option" where
  "read_size closePos startPos =
     (case closePos of
        Some c \<Rightarrow> Some (c - startPos + 1)
      | None \<Rightarrow> None)"

text \<open>
  In the branches below a string returned by \<^verbatim>\<open>search\<close> without a start position is
  answered with \<open>TypeError\<close>; \<^verbatim>\<open>search\<close> never returns one (lemma \<open>search_shape\<close>).
\<close>

definition parse_match ::
  "parse_fn \<Rightarrow> rule \<Rightarrow> regex \<Rightarrow> stream \<Rightarrow> int \<Rightarrow> int option \<Rightarrow> (presult \<times> stream) comp" where
  "parse_match pf self rx st startPos closePos =
     (case search pf self rx st (captures self) (read_size closePos startPos) True of
        None \<Rightarrow> None
      | Some (Inl e) \<Rightarrow> Some (Inl e)
      | Some (Inr ((string, caps, parsedStart), st1)) \<Rightarrow>
          (case string of
             None \<Rightarrow> Some (Inr ((False, [], None), st1))
           | Some s \<Rightarrow>
               (case parsedStart of
                  None \<Rightarrow> Some (Inl TypeError)
                | Some ps \<Rightarrow> parse_return [ParsedElement (token self) s caps] ps st1)))"

text \<open>\<^verbatim>\<open>beginCaptured[0] if beginCaptured else None\<close>\<close>

fun first_capture :: "element list \<Rightarrow> element option" where
  "first_capture [] = None"
| "first_capture (x # xs) = Some x"

text \<open>The part of the block branch after the recursion guard: the body and the element.\<close>

definition block_element ::
  "mp_fn \<Rightarrow> rule \<Rightarrow> stream \<Rightarrow> element list \<Rightarrow> element list \<Rightarrow> int \<Rightarrow> int \<Rightarrow> int \<Rightarrow> int
     \<Rightarrow> (presult \<times> stream) comp" where
  "block_element mp self st beginCaptured endCaptured parsedStart midStartPos midClosePos parsedEnd =
     (case (if patterns self \<noteq> [] then mp self st midStartPos midClosePos
            else Some (Inr ([], st))) of
        None \<Rightarrow> None
      | Some (Inl e) \<Rightarrow> Some (Inl e)
      | Some (Inr (midCaptured, st1)) \<Rightarrow>
          (case stream_seek st1 parsedEnd of
             Inl e \<Rightarrow> Some (Inl e)
           | Inr st2 \<Rightarrow>
               if contentToken self \<noteq> [] then
                 (case stream_read_pos st2 midStartPos midClosePos of
                    Inl e \<Rightarrow> Some (Inl e)
                  | Inr (txt, st3) \<Rightarrow>
                      parse_return
                        [ParsedElementBlock (token self) txt midCaptured
                           (first_capture beginCaptured) (first_capture endCaptured)]
                        parsedStart st3)
               else
                 (case stream_read_pos st2 parsedStart parsedEnd of
                    Inl e \<Rightarrow> Some (Inl e)
                  | Inr (txt, st3) \<Rightarrow>
                      parse_return
                        [ParsedElementBlock
                           (if token self \<noteq> [] then token self else comment self) txt midCaptured
                           (first_capture beginCaptured) (first_capture endCaptured)]
                        parsedStart st3)))"

definition parse_block ::
  "parse_fn \<Rightarrow> mp_fn \<Rightarrow> rule \<Rightarrow> regex \<Rightarrow> regex \<Rightarrow> stream \<Rightarrow> int \<Rightarrow> int option
     \<Rightarrow> (presult \<times> stream) comp" where
  "parse_block pf mp self rb re st startPos closePos =
     (case search pf self rb st (beginCaptures self) (read_size closePos startPos) True of
        None \<Rightarrow> None
      | Some (Inl e) \<Rightarrow> Some (Inl e)
      | Some (Inr ((beginString, beginCaptured, parsedStart), st1)) \<Rightarrow>
          if beginString = None then Some (Inr ((False, [], None), st1))
          else
            (let midStartPos = stream_tell st1
             in case search pf self re st1 (endCaptures self)
                       (case closePos of
                          Some c \<Rightarrow> Some (c - midStartPos + 1)
                        | None \<Rightarrow> Some (- 1))
                       False of
                  None \<Rightarrow> None
                | Some (Inl e) \<Rightarrow> Some (Inl e)
                | Some (Inr ((endString, endCaptured, midClosePos), st2)) \<Rightarrow>
                    (let parsedEnd = stream_tell st2
                     in if endString = None then Some (Inr ((False, [], None), st2))
                        else
                          (case (parsedStart, midClosePos) of
                             (Some ps, Some mc) \<Rightarrow>
                               if (startPos, closePos) = (midStartPos, Some mc) then
                                 (case stream_read_pos st2 midStartPos mc of
                                    Inl e \<Rightarrow> Some (Inl e)
                                  | Inr (txt, st3) \<Rightarrow>
                                      Some (Inr ((True, [RawText txt], Some (midStartPos, mc)), st3)))
                               else block_element mp self st2 beginCaptured endCaptured
                                      ps midStartPos mc parsedEnd
                           | _ \<Rightarrow> Some (Inl TypeError)))))"

text \<open>\<^verbatim>\<open>closePos if closePos else self.stream_end_pos(stream)\<close>: 0 counts as absent.\<close>

definition parse_patterns ::
  "mp_fn \<Rightarrow> rule \<Rightarrow> stream \<Rightarrow> int \<Rightarrow> int option \<Rightarrow> (presult \<times> stream) comp" where
  "parse_patterns mp self st startPos closePos =
     (let parsedStart = startPos;
          parsedEnd = (case closePos of
                         Some c \<Rightarrow> if c \<noteq> 0 then c else fst (stream_end_pos st)
                       | None \<Rightarrow> fst (stream_end_pos st))
      in case mp self st parsedStart parsedEnd of
           None \<Rightarrow> None
         | Some (Inl e) \<Rightarrow> Some (Inl e)
         | Some (Inr (captured, st1)) \<Rightarrow>
             (let patternClosePos = stream_tell st1
              in if captured \<noteq> [] then
                   (if token self \<noteq> [] then
                      (case stream_read_pos st1 parsedStart patternClosePos of
                         Inl e \<Rightarrow> Some (Inl e)
                       | Inr (txt, st2) \<Rightarrow>
                           parse_return [ParsedElement (token self) txt captured] parsedStart st2)
                    else parse_return captured parsedStart st1)
                 else parse_return [] parsedStart st1))"

definition parse_leaf :: "rule \<Rightarrow> stream \<Rightarrow> int \<Rightarrow> int option \<Rightarrow> (presult \<times> stream) comp" where
  "parse_leaf self st startPos closePos =
     (let tok = (if token self \<noteq> [] then token self else comment self)
      in case closePos of
           Some c \<Rightarrow>
             (let (txt, st1) = stream_read st (c - startPos)
              in parse_return [ParsedElement tok txt []] startPos st1)
         | None \<Rightarrow>
             (let parsedStart = stream_tell st;
                  (txt, st1) = stream_readline st
              in parse_return [ParsedElement tok txt []] parsedStart st1))"

definition parse_body ::
  "parse_fn \<Rightarrow> mp_fn \<Rightarrow> rule \<Rightarrow> stream \<Rightarrow> int \<Rightarrow> int option \<Rightarrow> (presult \<times> stream) comp" where
  "parse_body pf mp self st0 startPos closePos =
     (case stream_seek st0 startPos of
        Inl e \<Rightarrow> Some (Inl e)
      | Inr st \<Rightarrow>
          (case match self of
             Some rx \<Rightarrow> parse_match pf self rx st startPos closePos
           | None \<Rightarrow>
               (case (begin' self, end' self) of
                  (Some rb, Some re) \<Rightarrow> parse_block pf mp self rb re st startPos closePos
                | _ \<Rightarrow>
                    if patterns self \<noteq> [] then parse_patterns mp self st startPos closePos
                    else parse_leaf self st startPos closePos)))"

text \<open>
  \<^verbatim>\<open>parse\<close> and \<^verbatim>\<open>match_patterns\<close> call each other through a rule graph that may be
  cyclic, so the recursion runs on a budget: with budget \<open>Suc n\<close> the nested calls of
  \<^verbatim>\<open>parse\<close> have budget \<open>n\<close>, and a dispatch loop may make \<open>n - 1\<close> iterations.
\<close>

primrec parse :: "nat \<Rightarrow> parserstore \<Rightarrow> parse_fn" where
  "parse 0 store = (\<lambda>self st startPos closePos. None)"
| "parse (Suc n) store =
     parse_body (parse n store) (match_patterns n (parse n store) store)"

section \<open>Construction: \<^verbatim>\<open>__init__\<close> and \<^verbatim>\<open>set_parser\<close>\<close>

text \<open>
  The grammar dictionary, by its recognised keys. An absent \<^verbatim>\<open>patterns\<close> list or captures
  dictionary is the empty one (the constructor treats both alike); the items of a captures
  dictionary are in the dictionary's order.
\<close>

datatype grammar =
  Grammar (g_name: "string option") (g_contentName: "string option") (g_comment: "string option")
          (g_match: "string option") (g_begin: "string option") (g_end: "string option")
          (g_captures: "(string \<times> grammar) list")
          (g_beginCaptures: "(string \<times> grammar) list")
          (g_endCaptures: "(string \<times> grammar) list")
          (g_patterns: "grammar list") (g_include: "string option")

text \<open>
  What the constructor takes from outside the repository: \<^verbatim>\<open>re.compile\<close> of the regex
  engine and Python's \<^verbatim>\<open>int()\<close> on a group id; each may raise.
\<close>

record engine =
  re_compile :: "string \<Rightarrow> regex option"
  py_int :: "string \<Rightarrow> int option"

text \<open>\<^verbatim>\<open>grammar.get(key, "")\<close>\<close>

definition get_or :: "'a option \<Rightarrow> 'a \<Rightarrow> 'a" where
  "get_or v d = (case v of Some x \<Rightarrow> x | None \<Rightarrow> d)"

text \<open>
  A constructor call gives the new parser, or raises: then the result is the exception
  together with the object as far as \<^verbatim>\<open>__init__\<close> had filled it in (it is already in
  \<^verbatim>\<open>PARSERSTORE\<close> when it has a key).
\<close>

type_synonym made = "(error \<times> rule) + rule"

text \<open>
  \<^verbatim>\<open>set_parser\<close>. The second argument is what \<^verbatim>\<open>GrammarParser(grammar)\<close> gives for this
  grammar; it is used in the last branch only. No branch reads \<^verbatim>\<open>PARSERSTORE\<close>.
\<close>

definition set_parser :: "grammar \<Rightarrow> made \<Rightarrow> error + pref" where
  "set_parser g made =
     (case g_include g of
        Some inc \<Rightarrow> if inc = ''$self'' then Inr PSelf else Inr (PName (drop 1 inc))
      | None \<Rightarrow>
          (case made of
             Inl (err, half) \<Rightarrow> Inl err
           | Inr r \<Rightarrow> Inr (PDirect r)))"

text \<open>
  \<^verbatim>\<open>captures[int(groupId)] = self.set_parser(pattern)\<close>: the right-hand side is evaluated
  first.
\<close>

definition capture_item ::
  "engine \<Rightarrow> string \<Rightarrow> grammar \<Rightarrow> made \<Rightarrow> error + (int \<times> pref)" where
  "capture_item en groupId g made =
     (case set_parser g made of
        Inl err \<Rightarrow> Inl err
      | Inr p \<Rightarrow>
          (case py_int en groupId of
             None \<Rightarrow> Inl ValueError
           | Some i \<Rightarrow> Inr (i, p)))"

text \<open>The loop of \<^verbatim>\<open>__init_captures\<close> and the list comprehension over \<^verbatim>\<open>patterns\<close>.\<close>

fun init_captures ::
  "(error + (int \<times> pref)) list \<Rightarrow> (int \<times> pref) list \<Rightarrow> error + (int \<times> pref) list" where
  "init_captures [] acc = Inr acc"
| "init_captures (Inl err # rest) acc = Inl err"
| "init_captures (Inr (i, p) # rest) acc = init_captures rest (AList.update i p acc)"

fun init_patterns :: "(error + pref) list \<Rightarrow> error + pref list" where
  "init_patterns [] = Inr []"
| "init_patterns (Inl err # rest) = Inl err"
| "init_patterns (Inr p # rest) =
     (case init_patterns rest of
        Inl err \<Rightarrow> Inl err
      | Inr ps \<Rightarrow> Inr (p # ps))"

text \<open>
  The attributes \<^verbatim>\<open>__init__\<close> assigns after the first lines: the regexes and captures of
  the shape, and the patterns.
\<close>

definition with_shape ::
  "rule \<Rightarrow> regex option \<Rightarrow> regex option \<Rightarrow> regex option
     \<Rightarrow> (int \<times> pref) list \<Rightarrow> (int \<times> pref) list \<Rightarrow> (int \<times> pref) list \<Rightarrow> rule" where
  "with_shape obj rm rb re cs bs es =
     Rule (uid obj) (key obj) (token obj) (contentToken obj) (comment obj)
       rm rb re cs bs es (patterns obj)"

definition with_patterns :: "rule \<Rightarrow> pref list \<Rightarrow> rule" where
  "with_patterns obj ps =
     Rule (uid obj) (key obj) (token obj) (contentToken obj) (comment obj)
       (match obj) (begin' obj) (end' obj) (captures obj) (beginCaptures obj) (endCaptures obj) ps"

text \<open>
  The body of \<^verbatim>\<open>__init__\<close>, given the outcome of each child's construction, in the
  order of the source: the first lines (\<open>obj\<close>: no regex, no captures, no patterns), the
  regexes and captures of the shape, then the patterns. Each attribute is assigned when
  its right-hand side has been evaluated, so an exception leaves the object with the
  attributes assigned before it.
\<close>

definition assemble ::
  "engine \<Rightarrow> string \<Rightarrow> nat list \<Rightarrow> grammar
     \<Rightarrow> (error + (int \<times> pref)) list \<Rightarrow> (error + (int \<times> pref)) list
     \<Rightarrow> (error + (int \<times> pref)) list \<Rightarrow> (error + pref) list \<Rightarrow> made" where
  "assemble en k u g caps bcaps ecaps pats =
     (let obj = Rule u k (get_or (g_name g) []) (get_or (g_contentName g) [])
                  (get_or (g_comment g) []) None None None [] [] [] []
      in case (case g_match g of
                 Some src \<Rightarrow>
                   (case re_compile en src of
                      None \<Rightarrow> Inl (RegexCompileError, obj)
                    | Some rx \<Rightarrow>
                        (case init_captures caps [] of
                           Inl err \<Rightarrow> Inl (err, with_shape obj (Some rx) None None [] [] [])
                         | Inr cs \<Rightarrow> Inr (with_shape obj (Some rx) None None cs [] [])))
               | None \<Rightarrow>
                   (case (g_begin g, g_end g) of
                      (Some bsrc, Some esrc) \<Rightarrow>
                        (case re_compile en bsrc of
                           None \<Rightarrow> Inl (RegexCompileError, obj)
                         | Some rb \<Rightarrow>
                             (case re_compile en esrc of
                                None \<Rightarrow>
                                  Inl (RegexCompileError,
                                       with_shape obj None (Some rb) None [] [] [])
                              | Some re \<Rightarrow>
                                  (case init_captures bcaps [] of
                                     Inl err \<Rightarrow>
                                       Inl (err, with_shape obj None (Some rb) (Some re) [] [] [])
                                   | Inr bs \<Rightarrow>
                                       (case init_captures ecaps [] of
                                          Inl err \<Rightarrow>
                                            Inl (err,
                                                 with_shape obj None (Some rb) (Some re) [] bs [])
                                        | Inr es \<Rightarrow>
                                            Inr (with_shape obj None (Some rb) (Some re)
                                                   [] bs es)))))
                    | _ \<Rightarrow> Inr obj)) of
           Inl failed \<Rightarrow> Inl failed
         | Inr shaped \<Rightarrow>
             (case init_patterns pats of
                Inl err \<Rightarrow> Inl (err, shaped)
              | Inr ps \<Rightarrow> Inr (with_patterns shaped ps)))"

text \<open>
  \<^verbatim>\<open>GrammarParser(grammar, key)\<close> creating the object \<open>u\<close>. The children are made by
  \<^verbatim>\<open>set_parser\<close>, which passes no key.
\<close>

function new_parser :: "engine \<Rightarrow> string \<Rightarrow> nat list \<Rightarrow> grammar \<Rightarrow> made" where
  "new_parser en k u g =
     assemble en k u g
       (map (\<lambda>(i, groupId, c). capture_item en groupId c (new_parser en [] (u @ [0, i]) c))
            (enumerate 0 (g_captures g)))
       (map (\<lambda>(i, groupId, c). capture_item en groupId c (new_parser en [] (u @ [1, i]) c))
            (enumerate 0 (g_beginCaptures g)))
       (map (\<lambda>(i, groupId, c). capture_item en groupId c (new_parser en [] (u @ [2, i]) c))
            (enumerate 0 (g_endCaptures g)))
       (map (\<lambda>(i, c). set_parser c (new_parser en [] (u @ [3, i]) c))
            (enumerate 0 (g_patterns g)))"
  by pat_completeness auto

termination
proof -
  have in_list: "c \<in> set xs \<Longrightarrow> size c \<le> size_list size xs"
    for c :: grammar and xs
    by (induction xs) auto
  have in_alist: "(k, c) \<in> set xs \<Longrightarrow> size c \<le> size_list (size_prod (\<lambda>x. 0) size) xs"
    for c :: grammar and k :: string and xs
    by (induction xs) auto
  have nth_pair: "i < length xs \<Longrightarrow> xs ! i = (k, c) \<Longrightarrow> (k, c) \<in> set xs"
    for i and xs :: "(string \<times> grammar) list" and k c
    by (metis nth_mem)
  have child_pattern: "c \<in> set (g_patterns g) \<Longrightarrow> size c < size g" for c g
    by (cases g) (auto dest: in_list)
  have child_capture:
    "(k, c) \<in> set (g_captures g) \<or> (k, c) \<in> set (g_beginCaptures g)
       \<or> (k, c) \<in> set (g_endCaptures g) \<Longrightarrow> size c < size g" for k c g
    by (cases g) (auto dest: in_alist)
  show ?thesis
    by (relation "measure (\<lambda>(en, k, u, g). size g)")
       (auto simp: in_set_enumerate_eq intro: child_pattern[OF nth_mem] child_capture
             dest: nth_pair)
qed

declare new_parser.simps [simp del]

text \<open>
  A top-level construction. \<^verbatim>\<open>if key: self.PARSERSTORE[key] = self\<close> is the only write to
  the store, and it comes before anything that can raise: the object is in the store as
  the constructor leaves it, complete or not. \<open>n\<close> numbers the construction.
\<close>

definition grammar_parser ::
  "engine \<Rightarrow> parserstore \<Rightarrow> nat \<Rightarrow> grammar \<Rightarrow> string
     \<Rightarrow> (error \<times> parserstore) + (rule \<times> parserstore)" where
  "grammar_parser en store n g k =
     (case new_parser en k [n] g of
        Inl (err, half) \<Rightarrow> Inl (err, if k \<noteq> [] then store(k \<mapsto> half) else store)
      | Inr r \<Rightarrow> Inr (r, if k \<noteq> [] then store(k \<mapsto> r) else store))"

section \<open>Example patterns and rules\<close>

text \<open>
  A stand-in for the compiled pattern \<^verbatim>\<open>(s)\<close> of a fixed text \<open>s\<close>: \<open>literal src s\<close> has
  the source \<open>src\<close> and finds the first occurrence of \<open>s\<close> in a line; groups 0 and 1 are
  both the whole match.
\<close>

fun find_sub :: "string \<Rightarrow> string \<Rightarrow> nat \<Rightarrow> nat option" where
  "find_sub sub [] i = (if sub = [] then Some i else None)"
| "find_sub sub (c # cs) i = (if starts_with sub (c # cs) then Some i else find_sub sub cs (Suc i))"

definition literal_match :: "string \<Rightarrow> nat \<Rightarrow> rmatch" where
  "literal_match s i =
     \<lparr>m_start = i, m_end = i + length s,
      m_group = (\<lambda>g. if g = 0 \<or> g = 1 then Some s else None),
      m_span = (\<lambda>g. if g = 0 \<or> g = 1 then Some (int i, int i + int (length s)) else None)\<rparr>"

definition literal :: "string \<Rightarrow> string \<Rightarrow> regex" where
  "literal src s =
     \<lparr>pattern = src,
      rsearch = (\<lambda>line. case find_sub s line 0 of
                          None \<Rightarrow> None
                        | Some i \<Rightarrow> Some (literal_match s i))\<rparr>"

definition match_rule :: "nat list \<Rightarrow> string \<Rightarrow> regex \<Rightarrow> rule" where
  "match_rule u tok rx = Rule u [] tok [] [] (Some rx) None None [] [] [] []"

definition block_rule :: "nat list \<Rightarrow> string \<Rightarrow> regex \<Rightarrow> regex \<Rightarrow> pref list \<Rightarrow> rule" where
  "block_rule u tok rb re ps = Rule u [] tok [] [] None (Some rb) (Some re) [] [] [] ps"

definition patterns_rule :: "nat list \<Rightarrow> string \<Rightarrow> pref list \<Rightarrow> rule" where
  "patterns_rule u tok ps = Rule u [] tok [] [] None None None [] [] [] ps"

text \<open>
  A match rule whose capture group 1 is parsed by a rule that looks for \<^verbatim>\<open>x\<close>.
\<close>

definition sub_x :: rule where
  "sub_x = match_rule [0, 0, 0] ''x'' (literal ''x'' ''x'')"

definition cap_rule :: rule where
  "cap_rule =
     Rule [0] [] ''t'' [] [] (Some (literal ''(a)'' ''a'')) None None
       [(1, PDirect sub_x)] [] [] []"

text \<open>A block rule whose \<^verbatim>\<open>begin\<close> matches the empty text, with itself as inner pattern.\<close>

definition guard_rule :: rule where
  "guard_rule = block_rule [1] ''t'' (literal [] []) (literal ''b'' ''b'') [PSelf]"

text \<open>
  An engine that compiles every pattern to the literal of its source, and a language grammar
  whose only pattern is the include \<^verbatim>\<open>#missing\<close>, with the parser its construction gives.
\<close>

definition example_engine :: engine where
  "example_engine = \<lparr>re_compile = (\<lambda>s. Some (literal s s)), py_int = (\<lambda>s. Some 1)\<rparr>"

definition include_grammar :: "string \<Rightarrow> grammar" where
  "include_grammar inc = Grammar None None None None None None [] [] [] [] (Some inc)"

definition missing_include_grammar :: grammar where
  "missing_include_grammar =
     Grammar (Some ''root'') None None None None None [] [] [] [include_grammar ''#missing''] None"

definition missing_include_rule :: rule where
  "missing_include_rule =
     Rule [0] ''root'' ''root'' [] [] None None None [] [] [] [PName ''missing'']"

text \<open>
  A patterns rule whose only child never matches, two match rules and the candidates they
  give on \<^verbatim>\<open>ab\<close>.
\<close>

definition empty_group :: rule where
  "empty_group = patterns_rule [1] [] [PDirect (match_rule [1, 3, 0] ''z'' (literal ''z'' ''z''))]"

definition cand_b :: candidate where
  "cand_b = ([ParsedElement ''t'' ''b'' []], Some (1, 2))"

definition cand_ab :: candidate where
  "cand_ab = ([ParsedElement ''u'' ''ab'' []], Some (0, 2))"

definition two_rules :: "rule list" where
  "two_rules =
     [match_rule [1] ''t'' (literal ''b'' ''b''), match_rule [2] ''u'' (literal ''ab'' ''ab'')]"

text \<open>
  Match rules for \<^verbatim>\<open>b\<close> and \<^verbatim>\<open>c\<close>, a patterns rule whose only child looks for \<^verbatim>\<open>b\<close>, and
  a language with that patterns rule as its only pattern.
\<close>

definition rule_b :: rule where
  "rule_b = match_rule [2] ''t'' (literal ''b'' ''b'')"

definition rule_c :: rule where
  "rule_c = match_rule [3] ''v'' (literal ''c'' ''c'')"

definition group_b :: rule where
  "group_b = patterns_rule [1] [] [PDirect (match_rule [1, 3, 0] ''t'' (literal ''b'' ''b''))]"

definition group_b_root :: rule where
  "group_b_root = patterns_rule [0] [] [PDirect group_b]"

text \<open>
  A match rule whose pattern matches the empty text, and a language with that rule as its
  only pattern.
\<close>

definition zero_width :: rule where
  "zero_width = match_rule [0, 3, 0] ''e'' (literal [] [])"

definition zero_width_root :: rule where
  "zero_width_root = patterns_rule [0] [] [PDirect zero_width]"

definition text_stream :: "string \<Rightarrow> stream" where
  "text_stream s = \<lparr>content = s, position = 0\<rparr>"

definition no_store :: parserstore where
  "no_store = (\<lambda>name. None)"

section \<open>Frame conditions\<close>

text \<open>
  The text of a stream is never written: a \<^verbatim>\<open>parse\<close> function, or a dispatcher, keeps the
  content of the stream it is given.
\<close>

definition keeps_content :: "parse_fn \<Rightarrow> bool" where
  "keeps_content pf \<longleftrightarrow>
     (\<forall>r s a b res s'. pf r s a b = Some (Inr (res, s')) \<longrightarrow> content s' = content s)"

definition mp_keeps_content :: "mp_fn \<Rightarrow> bool" where
  "mp_keeps_content mp \<longleftrightarrow>
     (\<forall>r s a b els s'. mp r s a b = Some (Inr (els, s')) \<longrightarrow> content s' = content s)"

section \<open>Basic facts about the stream\<close>

lemma stream_seek_tell: "stream_seek st (stream_tell st) = Inr st"
  by (simp add: stream_seek_def stream_tell_def)

lemma search_fail_tell: "search_fail (stream_tell st) st = Some (Inr ((None, [], None), st))"
  by (simp add: search_fail_def stream_seek_tell)

lemma stream_seek_content: "stream_seek st n = Inr st' \<Longrightarrow> content st' = content st"
  by (auto simp: stream_seek_def split: if_splits)

lemma stream_read_content: "stream_read st n = (s, st') \<Longrightarrow> content st' = content st"
  by (auto simp: stream_read_def Let_def)

lemma stream_readline_content: "stream_readline st = (s, st') \<Longrightarrow> content st' = content st"
  by (auto simp: stream_readline_def Let_def)

lemma stream_read_pos_content: "stream_read_pos st a b = Inr (s, st') \<Longrightarrow> content st' = content st"
  by (auto simp: stream_read_pos_def split: sum.splits prod.splits
           dest!: stream_seek_content stream_read_content)

lemma search_fail_content: "search_fail i st = Some (Inr (res, st')) \<Longrightarrow> content st' = content st"
  by (auto simp: search_fail_def split: sum.splits dest: stream_seek_content)

lemma search_return_content:
  "search_return ms els a b st = Some (Inr (res, st')) \<Longrightarrow> content st' = content st"
  by (auto simp: search_return_def split: sum.splits dest: stream_seek_content)

lemma parse_return_content:
  "parse_return els a st = Some (Inr (res, st')) \<Longrightarrow> content st' = content st"
  by (auto simp: parse_return_def)

lemma parse_groups_content:
  "keeps_content pf \<Longrightarrow> parse_groups pf self m mpos parsers st acc = Some (Inr (r, st'))
     \<Longrightarrow> content st' = content st"
proof (induction parsers arbitrary: st acc)
  case Nil
  then show ?case by simp
next
  case (Cons a parsers)
  obtain g p where a: "a = (g, p)" by (cases a)
  show ?case
    using Cons.prems Cons.IH[OF Cons.prems(1)] a
    by (auto simp: keeps_content_def split: option.splits sum.splits if_splits)
qed

lemma search_content:
  assumes "keeps_content pf" "search pf self rx st parsers rs olw = Some (Inr (res, st'))"
  shows "content st' = content st"
  using assms(2)
  by (auto simp: search_def Let_def
           split: sum.splits option.splits prod.splits if_splits
           dest!: search_fail_content search_return_content stream_seek_content
                  stream_read_content parse_groups_content[OF assms(1)])


lemma mp_for_content:
  "keeps_content pf \<Longrightarrow> mp_for pf parsers c cl st m best = Some (Inr (st', m', best'))
     \<Longrightarrow> content st' = content st"
proof (induction parsers arbitrary: st m best)
  case Nil
  then show ?case by simp
next
  case (Cons p parsers)
  note IH = Cons.IH[OF Cons.prems(1)]
  show ?case
  proof (cases "memo_lookup m p c")
    case (Some opt)
    then show ?thesis
      using Cons.prems(2) IH by (simp split: sum.splits)
  next
    case None
    then obtain ok els pos st1 where call: "pf p st c (Some cl) = Some (Inr ((ok, els, pos), st1))"
      using Cons.prems(2) by (auto split: option.splits sum.splits)
    have st1: "content st1 = content st"
      using Cons.prems(1) call unfolding keeps_content_def by blast
    show ?thesis
      using Cons.prems(2) None call st1 IH[of st1]
      by (simp split: sum.splits if_splits)
  qed
qed

lemma mp_while_content:
  "keeps_content pf \<Longrightarrow> mp_while k pf parsers c cl st m captured = Some (Inr (els, st'))
     \<Longrightarrow> content st' = content st"
proof (induction k arbitrary: c st m captured)
  case 0
  then show ?case by simp
next
  case (Suc k)
  show ?case
    using Suc.prems Suc.IH[OF Suc.prems(1)]
    by (auto split: option.splits sum.splits if_splits prod.splits
             dest!: mp_for_content[OF Suc.prems(1)])
qed

lemma match_patterns_content:
  "keeps_content pf \<Longrightarrow> match_patterns k pf store self st a b = Some (Inr (els, st'))
     \<Longrightarrow> content st' = content st"
  by (auto simp: match_patterns_def split: sum.splits
           dest!: mp_while_content stream_seek_content)

lemma parse_match_content:
  assumes "keeps_content pf" "parse_match pf self rx st a b = Some (Inr (res, st'))"
  shows "content st' = content st"
  using assms(2)
  by (auto simp: parse_match_def parse_return_def split: option.splits sum.splits
           dest!: search_content[OF assms(1)])

lemma block_element_content:
  assumes "mp_keeps_content mp"
    and "block_element mp self st bc ec ps ms mc pe = Some (Inr (res, st'))"
  shows "content st' = content st"
  using assms
  by (auto simp: block_element_def parse_return_def mp_keeps_content_def
           split: option.splits sum.splits if_splits
           dest!: stream_seek_content stream_read_pos_content)

lemma parse_block_content:
  assumes "keeps_content pf" "mp_keeps_content mp"
    and "parse_block pf mp self rb re st a b = Some (Inr (res, st'))"
  shows "content st' = content st"
  using assms(3)
  unfolding parse_block_def Let_def
  by (auto split: option.splits sum.splits if_splits
           dest!: search_content[OF assms(1)] block_element_content[OF assms(2)]
                  stream_read_pos_content)

lemma parse_patterns_content:
  assumes "mp_keeps_content mp" "parse_patterns mp self st a b = Some (Inr (res, st'))"
  shows "content st' = content st"
  using assms
  by (auto simp: parse_patterns_def parse_return_def mp_keeps_content_def Let_def
           split: option.splits sum.splits if_splits
           dest!: stream_read_pos_content)

lemma parse_leaf_content:
  "parse_leaf self st a b = Some (Inr (res, st')) \<Longrightarrow> content st' = content st"
  by (auto simp: parse_leaf_def parse_return_def Let_def
           split: option.splits prod.splits
           dest!: stream_read_content stream_readline_content)

lemma parse_body_content:
  assumes "keeps_content pf" "mp_keeps_content mp"
    and "parse_body pf mp self st a b = Some (Inr (res, st'))"
  shows "content st' = content st"
  using assms(3)
  unfolding parse_body_def
  by (auto split: option.splits sum.splits if_splits
           dest!: stream_seek_content parse_match_content[OF assms(1)]
                  parse_block_content[OF assms(1,2)] parse_patterns_content[OF assms(2)]
                  parse_leaf_content)

lemma parse_keeps_content: "keeps_content (parse n store)"
proof (induction n)
  case 0
  then show ?case by (simp add: keeps_content_def)
next
  case (Suc n)
  have mp: "mp_keeps_content (match_patterns n (parse n store) store)"
    unfolding mp_keeps_content_def using match_patterns_content[OF Suc] by blast
  show ?case
    unfolding keeps_content_def using parse_body_content[OF Suc mp] by simp
qed

section \<open>Failing returns of \<^verbatim>\<open>parse\<close>\<close>

lemma parse_match_failure:
  "parse_match pf self rx st s c = Some (Inr ((False, els, sp), st')) \<Longrightarrow> els = [] \<and> sp = None"
  by (auto simp: parse_match_def parse_return_def split: option.splits sum.splits prod.splits)

lemma block_element_failure:
  "block_element mp self st bc ec ps ms mc pe = Some (Inr ((False, els, sp), st'))
     \<Longrightarrow> els = [] \<and> sp = None"
  by (auto simp: block_element_def parse_return_def
           split: option.splits sum.splits prod.splits if_splits)

lemma parse_block_failure:
  "parse_block pf mp self rb re st s c = Some (Inr ((False, els, sp), st'))
     \<Longrightarrow> els = [] \<and> sp = None"
  unfolding parse_block_def Let_def
  by (auto split: option.splits sum.splits prod.splits if_splits dest: block_element_failure)

lemma parse_patterns_failure:
  "parse_patterns mp self st s c = Some (Inr ((False, els, sp), st')) \<Longrightarrow> els = [] \<and> sp = None"
  by (auto simp: parse_patterns_def parse_return_def Let_def
           split: option.splits sum.splits prod.splits if_splits)

lemma parse_leaf_failure:
  "parse_leaf self st s c = Some (Inr ((False, els, sp), st')) \<Longrightarrow> els = [] \<and> sp = None"
  by (auto simp: parse_leaf_def parse_return_def Let_def
           split: option.splits sum.splits prod.splits if_splits)

lemma parse_body_failure:
  "parse_body pf mp self st s c = Some (Inr ((False, els, sp), st')) \<Longrightarrow> els = [] \<and> sp = None"
  unfolding parse_body_def
  by (auto split: option.splits sum.splits prod.splits if_splits
           dest: parse_match_failure parse_block_failure parse_patterns_failure parse_leaf_failure)

text \<open>
  Claim C10. Every failing return of \<^verbatim>\<open>GrammarParser.parse\<close> is exactly the triple
  \<^verbatim>\<open>(False, [], None)\<close>: whenever \<^verbatim>\<open>parse\<close> reports failure it yields no elements and no
  span, whatever the shape of the rule (match miss, begin miss, end miss).
\<close>

theorem parse_failure_is_empty:
  "parse n store self st startPos closePos = Some (Inr ((False, elements, sp), st'))
     \<Longrightarrow> elements = [] \<and> sp = None"
  by (cases n) (auto dest: parse_body_failure)

theorem parse_failure_is_empty_witness:
  "parse 1 no_store (match_rule [1] ''t'' (literal ''c'' ''c'')) (text_stream ''ab'') 0 (Some 2)
     = Some (Inr ((False, [], None), text_stream ''ab''))
   \<and> ([] :: element list) = [] \<and> (None :: span option) = None"
proof -
  have miss:
    "parse 1 no_store (match_rule [1] ''t'' (literal ''c'' ''c'')) (text_stream ''ab'') 0 (Some 2)
       = Some (Inr ((False, [], None), text_stream ''ab''))"
    by code_simp
  show ?thesis
    using miss parse_failure_is_empty [OF miss] by simp
qed

section \<open>Failing returns of \<^verbatim>\<open>search\<close>\<close>

lemma parse_groups_failing_member:
  assumes "keeps_content pf" "content st = txt"
    and "(gid, p) \<in> set parsers" "m_group m gid = Some grp" "grp \<noteq> []"
    and "m_span m gid = Some sp" "capture_parser self p = Some q"
    and "\<forall>s. content s = txt \<longrightarrow>
           (\<exists>els spn s'. pf q s (fst sp + mpos) (Some (snd sp + mpos))
              = Some (Inr ((False, els, spn), s')))"
    and "parse_groups pf self m mpos parsers st acc = Some (Inr (r, st'))"
  shows "r = None"
  using assms(2,3,9)
proof (induction parsers arbitrary: st acc)
  case Nil
  then show ?case by simp
next
  case (Cons a parsers)
  obtain g p' where a: "a = (g, p')" by (cases a)
  show ?case
  proof (cases "a = (gid, p)")
    case True
    obtain els spn s' where
      "pf q st (fst sp + mpos) (Some (snd sp + mpos)) = Some (Inr ((False, els, spn), s'))"
      using assms(8) Cons.prems(1) by blast
    then show ?thesis
      using Cons.prems(3) True assms(4-7) by (auto split: option.splits sum.splits if_splits)
  next
    case False
    then have mem: "(gid, p) \<in> set parsers" using Cons.prems(2) by simp
    have kc: "pf r s x y = Some (Inr (res, s')) \<Longrightarrow> content s' = content s" for r s x y res s'
      using assms(1) unfolding keeps_content_def by blast
    show ?thesis
      using Cons.prems(1,3) Cons.IH[OF _ mem] a
      by (auto split: option.splits sum.splits if_splits dest!: kc)
  qed
qed

text \<open>
  Claim C3. For every call to \<^verbatim>\<open>search\<close>: if the regex finds no match, or if a matched
  capture group's sub-parser fails to parse its span, \<^verbatim>\<open>search\<close> returns the triple
  \<^verbatim>\<open>(None, [], None)\<close> and the stream position on return is the position at entry.
  The regex finding no match is \<open>find_match\<close> giving \<open>Inr None\<close>; the sub-parsers are
  called when there is no parser for group 0; a sub-parser fails when \<^verbatim>\<open>parse\<close> on the
  group's span returns \<^verbatim>\<open>False\<close> from any position of the same text.
\<close>

theorem search_failure_rewinds:
  assumes ret: "search pf self rx st parsers readSize olw = Some (Inr (res, st'))"
    and frame: "keeps_content pf"
    and fails:
      "find_match rx st readSize olw = Inr None
       \<or> (\<exists>m mpos gid p grp sp q.
             find_match rx st readSize olw = Inr (Some (m, mpos))
           \<and> map_of parsers 0 = None \<and> (gid, p) \<in> set parsers
           \<and> m_group m gid = Some grp \<and> grp \<noteq> [] \<and> m_span m gid = Some sp
           \<and> capture_parser self p = Some q
           \<and> (\<forall>s. content s = content st \<longrightarrow>
                 (\<exists>els spn s'. pf q s (fst sp + mpos) (Some (snd sp + mpos))
                    = Some (Inr ((False, els, spn), s')))))"
  shows "res = (None, [], None) \<and> position st' = position st"
  using fails
proof
  assume "find_match rx st readSize olw = Inr None"
  then show ?thesis
    using ret by (simp add: search_def search_fail_tell)
next
  assume "\<exists>m mpos gid p grp sp q.
             find_match rx st readSize olw = Inr (Some (m, mpos))
           \<and> map_of parsers 0 = None \<and> (gid, p) \<in> set parsers
           \<and> m_group m gid = Some grp \<and> grp \<noteq> [] \<and> m_span m gid = Some sp
           \<and> capture_parser self p = Some q
           \<and> (\<forall>s. content s = content st \<longrightarrow>
                 (\<exists>els spn s'. pf q s (fst sp + mpos) (Some (snd sp + mpos))
                    = Some (Inr ((False, els, spn), s'))))"
  then obtain m mpos gid p grp sp q where
    found: "find_match rx st readSize olw = Inr (Some (m, mpos))"
    and no0: "map_of parsers 0 = None" and mem: "(gid, p) \<in> set parsers"
    and grp: "m_group m gid = Some grp" "grp \<noteq> []" "m_span m gid = Some sp"
    and q: "capture_parser self p = Some q"
    and bad: "\<forall>s. content s = content st \<longrightarrow>
                 (\<exists>els spn s'. pf q s (fst sp + mpos) (Some (snd sp + mpos))
                    = Some (Inr ((False, els, spn), s')))"
    by blast
  have ne: "parsers \<noteq> []" using mem by auto
  have pg: "content s = content st \<Longrightarrow>
            parse_groups pf self m mpos parsers s [] = Some (Inr (r, s')) \<Longrightarrow> r = None" for s r s'
    using parse_groups_failing_member[where pf = pf and mpos = mpos, OF frame _ mem grp q bad]
    by blast
  show ?thesis
    using ret found no0 ne
    by (auto simp: search_def Let_def search_fail_def stream_seek_def stream_tell_def stream_read_def
             split: sum.splits prod.splits option.splits if_splits dest!: pg[rotated])
qed

theorem search_failure_rewinds_witness:
  "search (parse 1 no_store) cap_rule (literal ''(a)'' ''a'') (text_stream ''cab'')
       [(1, PDirect sub_x)] (Some 3) True
     = Some (Inr ((None, [], None), text_stream ''cab''))
   \<and> position (text_stream ''cab'') = position (text_stream ''cab'')"
proof -
  have ret:
    "search (parse 1 no_store) cap_rule (literal ''(a)'' ''a'') (text_stream ''cab'')
         [(1, PDirect sub_x)] (Some 3) True
       = Some (Inr ((None, [], None), text_stream ''cab''))"
    by code_simp
  have found:
    "find_match (literal ''(a)'' ''a'') (text_stream ''cab'') (Some 3) True
       = Inr (Some (literal_match ''a'' 1, 0))"
    by (simp add: find_match_def search_loop.simps perform_lookbehind_def literal_def
          regex_lookbehind_max_def stream_tell_def text_stream_def search_pass_def
          stream_seek_def stream_read_def newline_def Let_def)
  have inner:
    "parse_match (parse 0 no_store) sub_x (literal ''x'' ''x'')
         \<lparr>content = ''cab'', position = 1\<rparr> 1 (Some 2)
       = Some (Inr ((False, [], None), \<lparr>content = ''cab'', position = 1\<rparr>))"
    by code_simp
  have sub_fails:
    "\<exists>els spn s'. parse 1 no_store sub_x s 1 (Some 2) = Some (Inr ((False, els, spn), s'))"
    if "content s = ''cab''" for s
  proof -
    have "stream_seek s 1 = Inr \<lparr>content = ''cab'', position = 1\<rparr>"
      using that by (cases s) (simp add: stream_seek_def)
    then show ?thesis
      using inner by (simp add: parse_body_def sub_x_def match_rule_def)
  qed
  have fails:
    "find_match (literal ''(a)'' ''a'') (text_stream ''cab'') (Some 3) True = Inr None
     \<or> (\<exists>m mpos gid p grp sp q.
           find_match (literal ''(a)'' ''a'') (text_stream ''cab'') (Some 3) True
             = Inr (Some (m, mpos))
         \<and> map_of [(1 :: int, PDirect sub_x)] 0 = None \<and> (gid, p) \<in> set [(1, PDirect sub_x)]
         \<and> m_group m gid = Some grp \<and> grp \<noteq> [] \<and> m_span m gid = Some sp
         \<and> capture_parser cap_rule p = Some q
         \<and> (\<forall>s. content s = content (text_stream ''cab'') \<longrightarrow>
               (\<exists>els spn s'. parse 1 no_store q s (fst sp + mpos) (Some (snd sp + mpos))
                  = Some (Inr ((False, els, spn), s')))))"
    apply (rule disjI2)
    apply (rule exI [of _ "literal_match ''a'' 1"], rule exI [of _ 0], rule exI [of _ 1])
    apply (rule exI [of _ "PDirect sub_x"], rule exI [of _ "''a''"], rule exI [of _ "(1, 2)"])
    apply (rule exI [of _ sub_x])
    using found sub_fails by (simp add: literal_match_def text_stream_def)
  show ?thesis
    using ret search_failure_rewinds [OF ret parse_keeps_content fails] by simp
qed

section \<open>The lookbehind loop of \<^verbatim>\<open>search\<close>\<close>

lemma search_loop_stop:
  "\<not> (lb \<le> regex_lookbehind_max \<and> can) \<Longrightarrow>
     search_loop rx st initPos rs olw perform lb can = ([], Inr None)"
proof -
  assume "\<not> (lb \<le> regex_lookbehind_max \<and> can)"
  then have c: "(lb \<le> regex_lookbehind_max \<and> can) = False" by simp
  show ?thesis
    by (subst search_loop.simps) (simp only: c if_False)
qed

lemma search_loop_step:
  assumes "lb \<le> regex_lookbehind_max" "can"
  shows "search_loop rx st initPos rs olw perform lb can =
     (case search_pass rx st initPos rs olw (min lb initPos) of
        Inl e \<Rightarrow> ([min lb initPos], Inl e)
      | Inr (Some found) \<Rightarrow> ([min lb initPos], Inr (Some found))
      | Inr None \<Rightarrow>
          (min lb initPos
             # fst (search_loop rx st initPos rs olw perform
                      (min lb initPos + regex_lookbehind_step) (perform \<and> lb \<le> initPos)),
           snd (search_loop rx st initPos rs olw perform
                  (min lb initPos + regex_lookbehind_step) (perform \<and> lb \<le> initPos))))"
proof -
  have m: "(if initPos - lb < 0 then initPos else lb) = min lb initPos" by auto
  have c: "(lb \<le> regex_lookbehind_max \<and> can) = True" using assms by simp
  show ?thesis
    apply (subst search_loop.simps)
    apply (simp only: c if_True)
    using assms
    apply (cases "initPos - lb < 0"; cases perform)
    apply (simp_all add: Let_def case_prod_beta min_def split: sum.splits option.splits)
    done
qed


lemma search_pass_in_range:
  "lb \<le> initPos \<Longrightarrow> search_pass rx st initPos rs olw lb \<noteq> Inl e"
  by (auto simp: search_pass_def stream_seek_def Let_def split: prod.splits option.splits)

lemma search_loop_invariant:
  "(\<forall>i < length (fst (search_loop rx st initPos rs olw perform lb can)).
       fst (search_loop rx st initPos rs olw perform lb can) ! i
         = min (lb + regex_lookbehind_step * int i) initPos
     \<and> fst (search_loop rx st initPos rs olw perform lb can) ! i \<le> regex_lookbehind_max)
   \<and> snd (search_loop rx st initPos rs olw perform lb can) \<noteq> Inl e"
proof (induction "nat (regex_lookbehind_max + 1 - lb)" arbitrary: lb can rule: less_induct)
  case less
  show ?case
  proof (cases "lb \<le> regex_lookbehind_max \<and> can")
    case False
    then show ?thesis by (simp add: search_loop_stop)
  next
    case True
    note step = search_loop_step[of lb can rx st initPos rs olw perform]
    show ?thesis
    proof (cases "search_pass rx st initPos rs olw (min lb initPos)")
      case (Inl e')
      then show ?thesis using search_pass_in_range[of "min lb initPos" initPos] by simp
    next
      case (Inr r)
      show ?thesis
      proof (cases r)
        case (Some found)
        then show ?thesis using True Inr step by (auto simp: min_def)
      next
        case None
        show ?thesis
        proof (cases "perform \<and> lb \<le> initPos")
          case False
          then have "search_loop rx st initPos rs olw perform
                       (min lb initPos + regex_lookbehind_step) (perform \<and> lb \<le> initPos)
                     = ([], Inr None)"
            by (intro search_loop_stop) simp
          then show ?thesis using True Inr None step by (auto simp: min_def)
        next
          case True2: True
          then have m: "min lb initPos = lb" by simp
          have "nat (regex_lookbehind_max + 1 - (lb + regex_lookbehind_step))
                  < nat (regex_lookbehind_max + 1 - lb)"
            using True by (simp add: regex_lookbehind_step_def)
          from less[OF this, of True]
          have IH: "\<forall>i < length (fst (search_loop rx st initPos rs olw perform (lb + regex_lookbehind_step) True)).
                 fst (search_loop rx st initPos rs olw perform (lb + regex_lookbehind_step) True) ! i
                   = min (lb + regex_lookbehind_step + regex_lookbehind_step * int i) initPos
               \<and> fst (search_loop rx st initPos rs olw perform (lb + regex_lookbehind_step) True) ! i
                   \<le> regex_lookbehind_max"
            and IH2: "snd (search_loop rx st initPos rs olw perform (lb + regex_lookbehind_step) True) \<noteq> Inl e"
            by blast+
          have eq: "search_loop rx st initPos rs olw perform lb can
                = (lb # fst (search_loop rx st initPos rs olw perform (lb + regex_lookbehind_step) True),
                   snd (search_loop rx st initPos rs olw perform (lb + regex_lookbehind_step) True))"
            using True True2 Inr None step m by simp
          show ?thesis
            unfolding eq using IH IH2 True True2
            by (auto simp: nth_Cons algebra_simps split: nat.splits)
        qed
      qed
    qed
  qed
qed

lemma search_passes_single:
  assumes "\<not> perform"
  shows "fst (search_loop rx st (stream_tell st) rs olw perform 0 True) = [0]"
proof -
  have p: "0 \<le> stream_tell st" by (simp add: stream_tell_def)
  have stop: "search_loop rx st (stream_tell st) rs olw perform (0 + regex_lookbehind_step) False
                = ([], Inr None)"
    by (intro search_loop_stop) simp
  show ?thesis
    using search_loop_step[of 0 True rx st "stream_tell st" rs olw perform] assms p stop
    by (auto simp: regex_lookbehind_max_def min_def split: sum.splits option.splits)
qed

text \<open>
  Claim C5, as amended. During every call to \<^verbatim>\<open>search\<close>, pass number \<open>i\<close> of the retry loop
  scans with the lookbehind \<open>min (5 * i) initPos\<close>: it grows by \<^verbatim>\<open>regex_lookbehind_step\<close> = 5
  per retry and is cut at the start of the buffer; it never exceeds
  \<^verbatim>\<open>regex_lookbehind_max\<close> = 100, the scan start \<open>initPos - lookbehind\<close> is never below 0
  (no seek of the loop raises), and if the pattern's source does not contain the substring
  \<^verbatim>\<open>(?<\<close> the loop makes exactly one pass.
\<close>

theorem lookbehind_bounds:
  "(\<forall>i < length (search_passes rx st rs olw).
        search_passes rx st rs olw ! i = min (regex_lookbehind_step * int i) (stream_tell st)
      \<and> search_passes rx st rs olw ! i \<le> regex_lookbehind_max
      \<and> 0 \<le> stream_tell st - search_passes rx st rs olw ! i)
   \<and> (\<forall>e. find_match rx st rs olw \<noteq> Inl e)
   \<and> (\<not> str_contains ''(?<'' (pattern rx) \<longrightarrow> length (search_passes rx st rs olw) = 1)"
proof -
  note inv = search_loop_invariant
    [of rx st "stream_tell st" rs olw "perform_lookbehind rx" 0 True,
     folded search_passes_def find_match_def]
  have nth: "search_passes rx st rs olw ! i = min (regex_lookbehind_step * int i) (stream_tell st)"
    if "i < length (search_passes rx st rs olw)" for i
    using inv that by simp
  have mx: "search_passes rx st rs olw ! i \<le> regex_lookbehind_max"
    if "i < length (search_passes rx st rs olw)" for i
    using inv that by blast
  have le: "0 \<le> stream_tell st - search_passes rx st rs olw ! i"
    if "i < length (search_passes rx st rs olw)" for i
    using nth[OF that] by simp
  have ok: "find_match rx st rs olw \<noteq> Inl e" for e
    using inv by blast
  have one: "\<not> str_contains ''(?<'' (pattern rx) \<Longrightarrow> length (search_passes rx st rs olw) = 1"
    unfolding search_passes_def perform_lookbehind_def
    by (simp add: search_passes_single)
  show ?thesis
    by (intro conjI allI impI nth mx le ok one)
qed

theorem lookbehind_bounds_witness:
  "search_passes (literal ''(?<=b)x'' ''x'') \<lparr>content = ''aaaaaaaaaa'', position = 7\<rparr>
       (Some 2) True ! 2
     = min (regex_lookbehind_step * int 2) (stream_tell \<lparr>content = ''aaaaaaaaaa'', position = 7\<rparr>)
   \<and> search_passes (literal ''(?<=b)x'' ''x'') \<lparr>content = ''aaaaaaaaaa'', position = 7\<rparr>
       (Some 2) True ! 2 \<le> regex_lookbehind_max
   \<and> length (search_passes (literal ''x'' ''x'') \<lparr>content = ''aaaaaaaaaa'', position = 7\<rparr>
       (Some 2) True) = 1"
proof -
  have len:
    "2 < length (search_passes (literal ''(?<=b)x'' ''x'')
                   \<lparr>content = ''aaaaaaaaaa'', position = 7\<rparr> (Some 2) True)"
    by code_simp
  have plain: "\<not> str_contains ''(?<'' (pattern (literal ''x'' ''x''))"
    by code_simp
  show ?thesis
    using len plain
      lookbehind_bounds [of "literal ''(?<=b)x'' ''x''"
        "\<lparr>content = ''aaaaaaaaaa'', position = 7\<rparr>" "Some 2" True]
      lookbehind_bounds [of "literal ''x'' ''x''"
        "\<lparr>content = ''aaaaaaaaaa'', position = 7\<rparr>" "Some 2" True]
    by blast
qed

theorem lookbehind_single_pass_counterexample:
  "\<not> str_contains ''(?<='' (pattern (literal ''(?<n>x)'' ''x''))
   \<and> \<not> str_contains ''(?<!'' (pattern (literal ''(?<n>x)'' ''x''))
   \<and> search_passes (literal ''(?<n>x)'' ''x'') \<lparr>content = ''aaaaaaaaaa'', position = 7\<rparr>
         (Some 2) True = [0, 5, 7]"
  by code_simp

text \<open>
  Claim C9, as amended. \<^verbatim>\<open>search\<close> performs lookbehind growth (a second, shifted pass after
  a first pass without a match) exactly when the pattern's source contains the substring
  \<^verbatim>\<open>(?<\<close>, whatever follows it: a lookbehind \<^verbatim>\<open>(?<=\<close>, \<^verbatim>\<open>(?<!\<close> or a named group
  \<^verbatim>\<open>(?<name>\<close>. For a pattern whose source does not contain \<^verbatim>\<open>(?<\<close>, \<^verbatim>\<open>search\<close> makes a
  single unshifted pass.
\<close>

theorem lookbehind_growth_iff:
  "(1 < length (search_passes rx st rs olw)
      \<longleftrightarrow> str_contains ''(?<'' (pattern rx)
          \<and> search_pass rx st (stream_tell st) rs olw 0 = Inr None)
   \<and> (\<not> str_contains ''(?<'' (pattern rx) \<longrightarrow> search_passes rx st rs olw = [0])"
proof -
  let ?perform = "str_contains ''(?<'' (pattern rx)"
  let ?loop = "search_loop rx st (stream_tell st) rs olw ?perform"
  have p: "0 \<le> stream_tell st" by (simp add: stream_tell_def)
  have m0: "min 0 (stream_tell st) = 0" using p by simp
  have first: "?loop 0 True =
     (case search_pass rx st (stream_tell st) rs olw 0 of
        Inl e \<Rightarrow> ([0], Inl e)
      | Inr (Some found) \<Rightarrow> ([0], Inr (Some found))
      | Inr None \<Rightarrow>
          (0 # fst (?loop regex_lookbehind_step ?perform), snd (?loop regex_lookbehind_step ?perform)))"
    using search_loop_step[of 0 True rx st "stream_tell st" rs olw ?perform] p
    by (simp add: regex_lookbehind_max_def m0 split: sum.splits option.splits)
  have second: "fst (?loop regex_lookbehind_step True) \<noteq> []"
    using search_loop_step[of regex_lookbehind_step True rx st "stream_tell st" rs olw ?perform]
    by (auto simp: regex_lookbehind_max_def regex_lookbehind_step_def
             split: sum.splits option.splits)
  have none: "fst (?loop regex_lookbehind_step False) = []"
    by (simp add: search_loop_stop)
  have a: "1 < length (search_passes rx st rs olw)
      \<longleftrightarrow> ?perform \<and> search_pass rx st (stream_tell st) rs olw 0 = Inr None"
    unfolding search_passes_def perform_lookbehind_def first
    using second none
    by (cases ?perform) (auto split: sum.splits option.splits)
  have b: "\<not> ?perform \<Longrightarrow> search_passes rx st rs olw = [0]"
    unfolding search_passes_def perform_lookbehind_def by (rule search_passes_single)
  show ?thesis using a b by blast
qed

theorem lookbehind_growth_iff_witness:
  "str_contains ''(?<'' (pattern (literal ''(?<n>x)'' ''x''))
   \<and> 1 < length (search_passes (literal ''(?<n>x)'' ''x'')
                  \<lparr>content = ''aaaa'', position = 2\<rparr> (Some 2) True)
   \<and> search_passes (literal ''x'' ''x'') \<lparr>content = ''aaaa'', position = 2\<rparr> (Some 2) True = [0]"
proof -
  have named: "str_contains ''(?<'' (pattern (literal ''(?<n>x)'' ''x''))"
    by code_simp
  have miss:
    "search_pass (literal ''(?<n>x)'' ''x'') \<lparr>content = ''aaaa'', position = 2\<rparr>
       (stream_tell \<lparr>content = ''aaaa'', position = 2\<rparr>) (Some 2) True 0 = Inr None"
    by (simp add: search_pass_def literal_def stream_tell_def stream_seek_def stream_read_def
          newline_def Let_def)
  have plain: "\<not> str_contains ''(?<'' (pattern (literal ''x'' ''x''))"
    by code_simp
  show ?thesis
    using named miss plain
      lookbehind_growth_iff [of "literal ''(?<n>x)'' ''x''"
        "\<lparr>content = ''aaaa'', position = 2\<rparr>" "Some 2" True]
      lookbehind_growth_iff [of "literal ''x'' ''x''"
        "\<lparr>content = ''aaaa'', position = 2\<rparr>" "Some 2" True]
    by blast
qed

theorem lookbehind_detection_counterexample:
  "\<not> str_contains ''(?<='' (pattern (literal ''(?<n>a)'' ''a''))
   \<and> \<not> str_contains ''(?<!'' (pattern (literal ''(?<n>a)'' ''a''))
   \<and> search_passes (literal ''(?<n>a)'' ''a'') \<lparr>content = ''ab'', position = 1\<rparr> (Some 1) True
        = [0, 1]
   \<and> search (parse 0 no_store) sub_x (literal ''(?<n>a)'' ''a'')
        \<lparr>content = ''ab'', position = 1\<rparr> [] (Some 1) True
        = Some (Inr ((Some ''a'', [], Some 0), \<lparr>content = ''ab'', position = 1\<rparr>))"
  by code_simp

section \<open>The match and block branches of \<^verbatim>\<open>parse\<close>\<close>

lemma search_shape:
  "search pf self rx st parsers rs olw = Some (Inr ((Some s, els, ps), st1))
     \<Longrightarrow> \<exists>start. ps = Some start \<and> 0 \<le> start"
  by (auto simp: search_def Let_def search_fail_def search_return_def stream_seek_def
           split: sum.splits option.splits prod.splits if_splits)

text \<open>
  Claim C4, as amended. When a match-shape rule's \<^verbatim>\<open>parse\<close> is invoked with a non-null
  \<^verbatim>\<open>closePos\<close>, it runs \<^verbatim>\<open>search\<close> with the rule's match regex, the rule's captures as
  parsers, and a window size \<^verbatim>\<open>readSize\<close> equal to \<open>closePos - startPos + 1\<close>; the outcome of
  \<^verbatim>\<open>parse\<close> is that of this search: no result, the exception, failure on a miss, one element
  on a hit.
\<close>

theorem match_rule_read_size:
  assumes "match self = Some rx" and "stream_seek st0 startPos = Inr st"
  shows "(search (parse n store) self rx st (captures self) (Some (closePos - startPos + 1)) True
            = None
          \<longrightarrow> parse (Suc n) store self st0 startPos (Some closePos) = None)
     \<and> (\<forall>e. search (parse n store) self rx st (captures self)
                 (Some (closePos - startPos + 1)) True = Some (Inl e)
          \<longrightarrow> parse (Suc n) store self st0 startPos (Some closePos) = Some (Inl e))
     \<and> (\<forall>caps ps st1. search (parse n store) self rx st (captures self)
                 (Some (closePos - startPos + 1)) True = Some (Inr ((None, caps, ps), st1))
          \<longrightarrow> parse (Suc n) store self st0 startPos (Some closePos)
                = Some (Inr ((False, [], None), st1)))
     \<and> (\<forall>s caps ps st1. search (parse n store) self rx st (captures self)
                 (Some (closePos - startPos + 1)) True = Some (Inr ((Some s, caps, ps), st1))
          \<longrightarrow> (\<exists>start. ps = Some start
                \<and> parse (Suc n) store self st0 startPos (Some closePos)
                  = Some (Inr ((True, [ParsedElement (token self) s caps],
                                Some (start, stream_tell st1)), st1))))"
  using assms
  by (auto simp: parse_body_def parse_match_def read_size_def parse_return_def
           dest: search_shape)

theorem match_rule_read_size_witness:
  "parse (Suc 0) no_store (match_rule [1] ''t'' (literal ''c'' ''c'')) (text_stream ''abc'') 0 (Some 2)
     = Some (Inr ((True, [ParsedElement ''t'' ''c'' []], Some (2, 3)),
                  \<lparr>content = ''abc'', position = 3\<rparr>))"
proof -
  have m: "match (match_rule [1] ''t'' (literal ''c'' ''c'')) = Some (literal ''c'' ''c'')"
    by (simp add: match_rule_def)
  have sk: "stream_seek (text_stream ''abc'') 0 = Inr (text_stream ''abc'')"
    by (simp add: stream_seek_def text_stream_def)
  have found:
    "search (parse 0 no_store) (match_rule [1] ''t'' (literal ''c'' ''c'')) (literal ''c'' ''c'')
        (text_stream ''abc'') (captures (match_rule [1] ''t'' (literal ''c'' ''c'')))
        (Some (2 - 0 + 1)) True
      = Some (Inr ((Some ''c'', [], Some 2), \<lparr>content = ''abc'', position = 3\<rparr>))"
    by code_simp
  show ?thesis
    using match_rule_read_size [OF m sk, of 0 no_store 2] found
    by (auto simp: stream_tell_def match_rule_def)
qed

theorem match_rule_read_size_counterexample:
  "parse 1 no_store (match_rule [1] ''t'' (literal ''c'' ''c'')) (text_stream ''abc'') 0 (Some 2)
     = Some (Inr ((True, [ParsedElement ''t'' ''c'' []], Some (2, 3)),
                  \<lparr>content = ''abc'', position = 3\<rparr>))
   \<and> search (parse 0 no_store) (match_rule [1] ''t'' (literal ''c'' ''c'')) (literal ''c'' ''c'')
        (text_stream ''abc'') [] (Some (2 - 0)) True
     = Some (Inr ((None, [], None), text_stream ''abc''))"
  by code_simp

text \<open>
  Claim C7: for a begin/end rule whose \<^verbatim>\<open>begin\<close> matches but whose \<^verbatim>\<open>end\<close> search fails,
  \<^verbatim>\<open>parse\<close> returns failure and leaves the stream where the parse started. The code at the
  input \<^verbatim>\<open>acd\<close>, window \<open>[0, 3)\<close>, with \<^verbatim>\<open>begin = a\<close> and \<^verbatim>\<open>end = b\<close>: failure is returned,
  with the stream at 1, behind the consumed \<^verbatim>\<open>begin\<close> match. On a \<^verbatim>\<open>begin\<close> miss (second
  conjunct, \<^verbatim>\<open>begin = z\<close>) the stream is back at 0.
\<close>

theorem block_end_miss_position:
  "parse 1 no_store (block_rule [1] ''t'' (literal ''a'' ''a'') (literal ''b'' ''b'') [])
       (text_stream ''acd'') 0 (Some 3)
     = Some (Inr ((False, [], None), \<lparr>content = ''acd'', position = 1\<rparr>))
   \<and> parse 1 no_store (block_rule [1] ''t'' (literal ''z'' ''z'') (literal ''b'' ''b'') [])
       (text_stream ''acd'') 0 (Some 3)
     = Some (Inr ((False, [], None), \<lparr>content = ''acd'', position = 0\<rparr>))"
  by code_simp

text \<open>
  Claim C8. For every begin/end rule parse in which, after matching \<^verbatim>\<open>begin\<close> and \<^verbatim>\<open>end\<close>,
  the pair \<open>(midStartPos, midClosePos)\<close> equals \<open>(startPos, closePos)\<close>, \<^verbatim>\<open>parse\<close> returns
  success and its element list is the single untagged raw text read between the two
  positions, with no recursion into the inner patterns: the result is the same whatever
  the dispatcher \<open>mp\<close> is.
\<close>

theorem block_recursion_guard:
  assumes shape: "match self = None" "begin' self = Some rb" "end' self = Some re"
    and seek: "stream_seek st0 startPos = Inr st"
    and bsearch: "search (parse n store) self rb st (beginCaptures self)
                    (Some (closePos - startPos + 1)) True
                  = Some (Inr ((Some bs, bcap, ps), st1))"
    and esearch: "search (parse n store) self re st1 (endCaptures self)
                    (Some (closePos - stream_tell st1 + 1)) False
                  = Some (Inr ((Some es, ecap, mc), st2))"
    and same: "stream_tell st1 = startPos" "mc = Some closePos"
  shows "\<exists>txt st3. stream_read_pos st2 startPos closePos = Inr (txt, st3)
           \<and> parse (Suc n) store self st0 startPos (Some closePos)
               = Some (Inr ((True, [RawText txt], Some (startPos, closePos)), st3))
           \<and> (\<forall>mp. parse_body (parse n store) mp self st0 startPos (Some closePos)
                    = Some (Inr ((True, [RawText txt], Some (startPos, closePos)), st3)))"
proof -
  obtain start where ps: "ps = Some start" using search_shape[OF bsearch] by blast
  have c0: "0 \<le> closePos" using search_shape[OF esearch] same by auto
  have s0: "0 \<le> startPos" using seek by (auto simp: stream_seek_def split: if_splits)
  have "\<exists>raw st3. stream_read_pos st2 startPos closePos = Inr (raw, st3)"
    using c0 s0
    by (cases "stream_read (st2\<lparr>position := nat startPos\<rparr>) (closePos - startPos)")
       (simp add: stream_read_pos_def stream_seek_def)
  then obtain raw st3 where rp: "stream_read_pos st2 startPos closePos = Inr (raw, st3)"
    by blast
  have body: "parse_body (parse n store) mp self st0 startPos (Some closePos)
                = Some (Inr ((True, [RawText raw], Some (startPos, closePos)), st3))" for mp
    using shape seek bsearch esearch same ps rp
    by (simp add: parse_body_def parse_block_def read_size_def Let_def)
  show ?thesis
    using rp body by simp
qed


theorem block_recursion_guard_witness:
  "parse (Suc 0) no_store guard_rule (text_stream ''acb'') 0 (Some 2)
     = Some (Inr ((True, [RawText ''ac''], Some (0, 2)), \<lparr>content = ''acb'', position = 2\<rparr>))"
proof -
  have shape: "match guard_rule = None" "begin' guard_rule = Some (literal [] [])"
    "end' guard_rule = Some (literal ''b'' ''b'')"
    by (simp_all add: guard_rule_def block_rule_def)
  have sk: "stream_seek (text_stream ''acb'') 0 = Inr (text_stream ''acb'')"
    by (simp add: stream_seek_def text_stream_def)
  have bsearch:
    "search (parse 0 no_store) guard_rule (literal [] []) (text_stream ''acb'')
        (beginCaptures guard_rule) (Some (2 - 0 + 1)) True
      = Some (Inr ((Some [], [], Some 0), text_stream ''acb''))"
    by code_simp
  have esearch:
    "search (parse 0 no_store) guard_rule (literal ''b'' ''b'') (text_stream ''acb'')
        (endCaptures guard_rule) (Some (2 - stream_tell (text_stream ''acb'') + 1)) False
      = Some (Inr ((Some ''b'', [], Some 2), \<lparr>content = ''acb'', position = 3\<rparr>))"
    by code_simp
  have same: "stream_tell (text_stream ''acb'') = 0"
    by (simp add: stream_tell_def text_stream_def)
  have rp: "stream_read_pos \<lparr>content = ''acb'', position = 3\<rparr> 0 2
              = Inr (''ac'', \<lparr>content = ''acb'', position = 2\<rparr>)"
    by code_simp
  show ?thesis
    using block_recursion_guard [OF shape sk bsearch esearch same refl] rp
    by auto
qed

section \<open>Include references\<close>

lemma set_parser_error: "set_parser g made = Inl e \<Longrightarrow> \<exists>half. made = Inl (e, half)"
  by (auto simp: set_parser_def split: option.splits sum.splits if_splits)

lemma capture_item_error:
  "capture_item en gid g made = Inl e \<Longrightarrow> (\<exists>half. made = Inl (e, half)) \<or> e = ValueError"
  by (auto simp: capture_item_def split: option.splits sum.splits dest: set_parser_error)

lemma init_captures_error: "init_captures xs acc = Inl e \<Longrightarrow> Inl e \<in> set xs"
  by (induction xs acc rule: init_captures.induct) auto

lemma init_patterns_error: "init_patterns xs = Inl e \<Longrightarrow> Inl e \<in> set xs"
  by (induction xs rule: init_patterns.induct) (auto split: sum.splits)

lemma assemble_error:
  "assemble en k u g caps bcaps ecaps pats = Inl (e, half) \<Longrightarrow>
     e = RegexCompileError \<or> Inl e \<in> set caps \<or> Inl e \<in> set bcaps \<or> Inl e \<in> set ecaps
       \<or> Inl e \<in> set pats"
  unfolding assemble_def Let_def
  by (auto split: option.splits sum.splits prod.splits
           dest: init_captures_error init_patterns_error)

lemma new_parser_error: "new_parser en k u g \<noteq> Inl (IncludedParserNotFound x, half)"
proof (induction en k u g arbitrary: half rule: new_parser.induct)
  case (1 en k u g)
  show ?case
  proof
    assume a: "new_parser en k u g = Inl (IncludedParserNotFound x, half)"
    have "assemble en k u g
       (map (\<lambda>(i, groupId, c). capture_item en groupId c (new_parser en [] (u @ [0, i]) c))
            (enumerate 0 (g_captures g)))
       (map (\<lambda>(i, groupId, c). capture_item en groupId c (new_parser en [] (u @ [1, i]) c))
            (enumerate 0 (g_beginCaptures g)))
       (map (\<lambda>(i, groupId, c). capture_item en groupId c (new_parser en [] (u @ [2, i]) c))
            (enumerate 0 (g_endCaptures g)))
       (map (\<lambda>(i, c). set_parser c (new_parser en [] (u @ [3, i]) c))
            (enumerate 0 (g_patterns g))) = Inl (IncludedParserNotFound x, half)"
      using a by (subst (asm) new_parser.simps)
    from assemble_error[OF this] show False
      using 1 by (auto dest!: capture_item_error[OF sym] set_parser_error[OF sym])
  qed
qed

lemma get_parsers_missing:
  "PName name \<in> set ps \<Longrightarrow> store name = None \<Longrightarrow>
     \<exists>x. PName x \<in> set ps \<and> store x = None
       \<and> get_parsers store self ps = Inl (IncludedParserNotFound x)"
proof (induction ps)
  case Nil
  then show ?case by simp
next
  case (Cons a ps)
  show ?case
  proof (cases "get_parser store self a")
    case (Inl e)
    then show ?thesis
      by (cases a) (auto split: option.splits)
  next
    case (Inr r)
    then have "a \<noteq> PName name" using Cons.prems(2) by (cases a) auto
    then have "PName name \<in> set ps" using Cons.prems(1) by simp
    from Cons.IH[OF this Cons.prems(2)] show ?thesis using Inr by auto
  qed
qed

text \<open>
  Claim C6, as amended. An include reference \<^verbatim>\<open>#name\<close> is not resolved when the enclosing
  rule is constructed: \<^verbatim>\<open>set_parser\<close> stores the name without reading the parser store, and
  no construction fails with \<^verbatim>\<open>IncludedParserNotFound\<close>. The name is resolved by
  \<^verbatim>\<open>get_parser\<close> each time \<^verbatim>\<open>match_patterns\<close> runs on the enclosing rule: if a name among
  the rule's patterns has no entry in the parser store, that call raises
  \<^verbatim>\<open>IncludedParserNotFound\<close> for the first such name.
\<close>

theorem include_resolved_at_dispatch:
  "(\<forall>x half. new_parser en k u g \<noteq> Inl (IncludedParserNotFound x, half))
   \<and> (\<forall>x store'. grammar_parser en store n g k \<noteq> Inl (IncludedParserNotFound x, store'))
   \<and> (g_include g = Some (CHR ''#'' # name) \<longrightarrow> set_parser g made = Inr (PName name))
   \<and> (PName name \<in> set (patterns self) \<and> store name = None \<longrightarrow>
        (\<exists>x. PName x \<in> set (patterns self) \<and> store x = None
           \<and> match_patterns fuel pf store self st startPos closePos
               = Some (Inl (IncludedParserNotFound x))))"
proof -
  have a: "new_parser en k u g \<noteq> Inl (IncludedParserNotFound x, half)" for x half
    by (rule new_parser_error)
  have b: "grammar_parser en store n g k \<noteq> Inl (IncludedParserNotFound x, store')" for x store'
    using new_parser_error[of en k "[n]" g x]
    by (auto simp: grammar_parser_def split: sum.splits prod.splits)
  have c: "g_include g = Some (CHR ''#'' # name) \<Longrightarrow> set_parser g made = Inr (PName name)"
    by (simp add: set_parser_def)
  have d: "\<exists>x. PName x \<in> set (patterns self) \<and> store x = None
           \<and> match_patterns fuel pf store self st startPos closePos
               = Some (Inl (IncludedParserNotFound x))"
    if "PName name \<in> set (patterns self) \<and> store name = None"
    using get_parsers_missing[of name "patterns self" store self] that
    by (auto simp: match_patterns_def)
  show ?thesis
    using a b c d by blast
qed


theorem include_resolved_at_dispatch_witness:
  "set_parser (include_grammar ''#missing'') (Inr missing_include_rule) = Inr (PName ''missing'')
   \<and> (\<exists>x. PName x \<in> set (patterns missing_include_rule) \<and> no_store x = None
          \<and> match_patterns 0 (parse 0 no_store) no_store missing_include_rule
               (text_stream ''a'') 0 1
              = Some (Inl (IncludedParserNotFound x)))"
proof -
  have inc: "g_include (include_grammar ''#missing'') = Some (CHR ''#'' # ''missing'')"
    by (simp add: include_grammar_def)
  have unresolved:
    "PName ''missing'' \<in> set (patterns missing_include_rule) \<and> no_store ''missing'' = None"
    by (simp add: missing_include_rule_def no_store_def)
  show ?thesis
    using inc unresolved
      include_resolved_at_dispatch
        [of example_engine "[]" "[]" "include_grammar ''#missing''" no_store 0 "''missing''"
            "Inr missing_include_rule" missing_include_rule 0 "parse 0 no_store"
            "text_stream ''a''" 0 1]
    by blast
qed

theorem unresolved_include_counterexample:
  "grammar_parser example_engine no_store 0 missing_include_grammar ''root''
     = Inr (missing_include_rule, no_store(''root'' \<mapsto> missing_include_rule))
   \<and> (no_store(''root'' \<mapsto> missing_include_rule)) ''missing'' = None
   \<and> parse 1 (no_store(''root'' \<mapsto> missing_include_rule)) missing_include_rule
         (text_stream ''a'') 0 (Some 1)
     = Some (Inl (IncludedParserNotFound ''missing''))"
proof -
  have built: "new_parser example_engine ''root'' [0] missing_include_grammar = Inr missing_include_rule"
    by (subst new_parser.simps)
       (simp add: missing_include_grammar_def include_grammar_def assemble_def set_parser_def
          enumerate_eq_zip get_or_def example_engine_def missing_include_rule_def
          with_patterns_def)
  have raised:
    "parse 1 (no_store(''root'' \<mapsto> missing_include_rule)) missing_include_rule
         (text_stream ''a'') 0 (Some 1)
       = Some (Inl (IncludedParserNotFound ''missing''))"
    by (simp add: parse_body_def parse_patterns_def match_patterns_def missing_include_rule_def
          stream_seek_def text_stream_def no_store_def stream_end_pos_def)
  show ?thesis
    using built raised by (simp add: grammar_parser_def no_store_def)
qed

section \<open>The ordering policy of \<^verbatim>\<open>match_patterns\<close>\<close>

lemma mp_for_select_all:
  "mp_for pf parsers c cl st m best = Some (Inr (st', m', best')) \<Longrightarrow>
   mp_candidates pf parsers c cl st m = Some (Inr cands) \<Longrightarrow>
   select_all best cands = Inr best'"
proof (induction parsers arbitrary: st m best cands)
  case Nil
  then show ?case by simp
next
  case (Cons p parsers)
  show ?case
  proof (cases "memo_lookup m p c")
    case (Some opt)
    then show ?thesis
      using Cons.prems Cons.IH
      by (auto split: sum.splits option.splits)
  next
    case None
    then obtain ok els pos st1 where call: "pf p st c (Some cl) = Some (Inr ((ok, els, pos), st1))"
      using Cons.prems(1) by (auto split: option.splits sum.splits)
    show ?thesis
      using Cons.prems None call Cons.IH
      by (auto split: sum.splits option.splits if_splits)
  qed
qed

lemma select_all_append:
  "select_all best (xs @ [x]) =
     (case select_all best xs of
        Inl e \<Rightarrow> Inl e
      | Inr best1 \<Rightarrow> mp_select x best1)"
  by (induction xs arbitrary: best) (auto split: sum.splits)


lemma mp_select_first: "mp_select x ([], None) = Inr x"
  by (simp add: mp_select_def)

lemma mp_select_positions:
  "fst b \<noteq> [] \<Longrightarrow> snd x = Some (sx, ex) \<Longrightarrow> snd b = Some (s, e) \<Longrightarrow>
     mp_select x b = Inr (if sx < s \<or> (sx = s \<and> e < ex) then x else b)"
  by (simp add: mp_select_def)

lemma select_all_winner:
  assumes "\<forall>cd \<in> set cands. fst cd \<noteq> [] \<and> snd cd \<noteq> None" and "cands \<noteq> []"
    and "select_all ([], None) cands = Inr best"
  shows "\<exists>i s e. i < length cands \<and> best = cands ! i \<and> snd best = Some (s, e)
           \<and> (\<forall>j s' e'. j < length cands \<longrightarrow> snd (cands ! j) = Some (s', e')
                  \<longrightarrow> s < s' \<or> (s = s' \<and> (e' < e \<or> (e' = e \<and> i \<le> j))))"
  using assms
proof (induction cands arbitrary: best rule: rev_induct)
  case Nil
  then show ?case by simp
next
  case (snoc x xs)
  obtain sx ex where x: "snd x = Some (sx, ex)"
    using snoc.prems(1) by fastforce
  show ?case
  proof (cases "xs = []")
    case True
    then have "best = x" using snoc.prems(3) by (simp add: mp_select_first)
    then show ?thesis
      using True x by (intro exI[of _ 0] exI[of _ sx] exI[of _ ex]) auto
  next
    case False
    obtain b1 where b1: "select_all ([], None) xs = Inr b1" and sel: "mp_select x b1 = Inr best"
      using snoc.prems(3) by (auto simp: select_all_append split: sum.splits)
    have good: "\<forall>cd \<in> set xs. fst cd \<noteq> [] \<and> snd cd \<noteq> None"
      using snoc.prems(1) by simp
    from snoc.IH[OF good False b1] obtain i s e where
      i: "i < length xs" and bi: "b1 = xs ! i" and pos: "snd b1 = Some (s, e)"
      and least: "\<And>j s' e'. j < length xs \<Longrightarrow> snd (xs ! j) = Some (s', e')
                    \<Longrightarrow> s < s' \<or> (s = s' \<and> (e' < e \<or> (e' = e \<and> i \<le> j)))"
      by blast
    have ne: "fst b1 \<noteq> []" using good bi i by simp
    have best: "best = (if sx < s \<or> (sx = s \<and> e < ex) then x else b1)"
      using sel mp_select_positions[OF ne x pos] by simp
    show ?thesis
    proof (cases "sx < s \<or> (sx = s \<and> e < ex)")
      case True
      have "\<And>j s' e'. j < length (xs @ [x]) \<Longrightarrow> snd ((xs @ [x]) ! j) = Some (s', e')
              \<Longrightarrow> sx < s' \<or> (sx = s' \<and> (e' < ex \<or> (e' = ex \<and> length xs \<le> j)))"
      proof -
        fix j s' e'
        assume j: "j < length (xs @ [x])" and p: "snd ((xs @ [x]) ! j) = Some (s', e')"
        show "sx < s' \<or> (sx = s' \<and> (e' < ex \<or> (e' = ex \<and> length xs \<le> j)))"
        proof (cases "j < length xs")
          case True
          then have "snd (xs ! j) = Some (s', e')" using p by (simp add: nth_append)
          from least[OF True this] \<open>sx < s \<or> (sx = s \<and> e < ex)\<close> show ?thesis by auto
        next
          case False
          then have "j = length xs" using j by simp
          then show ?thesis using p x by simp
        qed
      qed
      then show ?thesis
        using True best x
        by (intro exI[of _ "length xs"] exI[of _ sx] exI[of _ ex]) auto
    next
      case nb: False
      have "\<And>j s' e'. j < length (xs @ [x]) \<Longrightarrow> snd ((xs @ [x]) ! j) = Some (s', e')
              \<Longrightarrow> s < s' \<or> (s = s' \<and> (e' < e \<or> (e' = e \<and> i \<le> j)))"
      proof -
        fix j s' e'
        assume j: "j < length (xs @ [x])" and p: "snd ((xs @ [x]) ! j) = Some (s', e')"
        show "s < s' \<or> (s = s' \<and> (e' < e \<or> (e' = e \<and> i \<le> j)))"
        proof (cases "j < length xs")
          case True
          then have "snd (xs ! j) = Some (s', e')" using p by (simp add: nth_append)
          from least[OF True this] show ?thesis .
        next
          case False
          then have "j = length xs" using j by simp
          then show ?thesis using p x nb i by auto
        qed
      qed
      then show ?thesis
        using nb best bi i pos
        by (intro exI[of _ i] exI[of _ s] exI[of _ e]) (auto simp: nth_append)
    qed
  qed
qed

lemma selected_of_case:
  fixes r :: "(stream \<times> memo \<times> candidate) comp"
  shows "(case r of Some (Inr (st', m', best)) \<Rightarrow> best = b | _ \<Rightarrow> False)
           \<Longrightarrow> \<exists>st' m'. r = Some (Inr (st', m', b))"
  by (auto split: option.splits sum.splits)

lemma candidates_of_case:
  fixes r :: "candidate list comp"
  shows "(case r of Some (Inr cs) \<Rightarrow> cs = c | _ \<Rightarrow> False) \<Longrightarrow> r = Some (Inr c)"
  by (auto split: option.splits sum.splits)

text \<open>
  Between candidates that all carry elements (and a position) the loop's comparison picks
  the candidate with the smallest matchStart; among those with equal matchStart, the one
  with the largest matchEnd; among those tied on both, the earliest in the list.
\<close>

lemma mp_for_winner_with_elements:
  assumes "mp_for pf parsers patternStartPos closePos st m ([], None) = Some (Inr (st', m', best))"
    and "mp_candidates pf parsers patternStartPos closePos st m = Some (Inr cands)"
    and "cands \<noteq> []"
    and "\<forall>cd \<in> set cands. fst cd \<noteq> [] \<and> snd cd \<noteq> None"
  shows "\<exists>i s e. i < length cands \<and> best = cands ! i \<and> snd best = Some (s, e)
           \<and> (\<forall>j s' e'. j < length cands \<longrightarrow> snd (cands ! j) = Some (s', e')
                  \<longrightarrow> s < s' \<or> (s = s' \<and> (e' < e \<or> (e' = e \<and> i \<le> j))))"
  using select_all_winner[OF assms(4,3) mp_for_select_all[OF assms(1,2)]] .

lemma mp_for_winner_example:
  "\<exists>i s e. i < length [cand_b, cand_ab] \<and> cand_ab = [cand_b, cand_ab] ! i
     \<and> snd cand_ab = Some (s, e)
     \<and> (\<forall>j s' e'. j < length [cand_b, cand_ab]
            \<longrightarrow> snd ([cand_b, cand_ab] ! j) = Some (s', e')
            \<longrightarrow> s < s' \<or> (s = s' \<and> (e' < e \<or> (e' = e \<and> i \<le> j))))"
proof -
  have "(case mp_for (parse 1 no_store) two_rules 0 2 (text_stream ''ab'') Map.empty ([], None) of
           Some (Inr (st', m', best)) \<Rightarrow> best = cand_ab
         | _ \<Rightarrow> False)"
    by code_simp
  from selected_of_case[OF this] obtain st' m' where run:
    "mp_for (parse 1 no_store) two_rules 0 2 (text_stream ''ab'') Map.empty ([], None)
       = Some (Inr (st', m', cand_ab))"
    by blast
  have "(case mp_candidates (parse 1 no_store) two_rules 0 2 (text_stream ''ab'') Map.empty of
           Some (Inr cs) \<Rightarrow> cs = [cand_b, cand_ab]
         | _ \<Rightarrow> False)"
    by code_simp
  from candidates_of_case[OF this] have cands:
    "mp_candidates (parse 1 no_store) two_rules 0 2 (text_stream ''ab'') Map.empty
       = Some (Inr [cand_b, cand_ab])" .
  have ne: "[cand_b, cand_ab] \<noteq> []" by simp
  have good: "\<forall>cd \<in> set [cand_b, cand_ab]. fst cd \<noteq> [] \<and> snd cd \<noteq> None"
    by (simp add: cand_b_def cand_ab_def)
  show ?thesis
    by (rule mp_for_winner_with_elements [OF run cands ne good])
qed

text \<open>
  Claim C2. At each iteration of \<^verbatim>\<open>match_patterns\<close>, among the parsers whose \<^verbatim>\<open>parse\<close>
  succeeds at the current cursor, the winner is to be the one with the smallest matchStart,
  then the largest matchEnd, then the earliest in the list. The loop's comparison does that
  between candidates that carry elements, but its test that nothing has been selected so far is
  \<^verbatim>\<open>not patternElements\<close>, which also holds after a success without elements has been
  selected (a patterns rule that found nothing returns \<open>(True, [], span)\<close>); the next
  candidate then replaces it whatever its position. On \<^verbatim>\<open>abc\<close> with the window \<open>[0, 3)\<close>
  the rule for \<^verbatim>\<open>b\<close> succeeds at \<open>(1, 2)\<close>, the patterns rule at \<open>(0, 0)\<close> without elements,
  and the rule for \<^verbatim>\<open>c\<close> at \<open>(2, 3)\<close>. With the parsers in the order \<^verbatim>\<open>b\<close>, group, \<^verbatim>\<open>c\<close> the
  winner is \<^verbatim>\<open>c\<close>, the candidate with the largest matchStart, and the dispatch returns
  \<^verbatim>\<open>c\<close> alone; the outcome depends on the
  order: with group, \<^verbatim>\<open>b\<close> the winner is \<^verbatim>\<open>b\<close>, and with \<^verbatim>\<open>b\<close>, group the winner is the
  success without elements, so that the dispatch stops and returns nothing.
\<close>

theorem dispatch_winner_order_dependent:
  "parse 2 no_store rule_b (text_stream ''abc'') 0 (Some 3)
     = Some (Inr ((True, [ParsedElement ''t'' ''b'' []], Some (1, 2)),
                  \<lparr>content = ''abc'', position = 2\<rparr>))
   \<and> parse 2 no_store empty_group (text_stream ''abc'') 0 (Some 3)
     = Some (Inr ((True, [], Some (0, 0)), text_stream ''abc''))
   \<and> parse 2 no_store rule_c (text_stream ''abc'') 0 (Some 3)
     = Some (Inr ((True, [ParsedElement ''v'' ''c'' []], Some (2, 3)),
                  \<lparr>content = ''abc'', position = 3\<rparr>))
   \<and> (case mp_for (parse 2 no_store) [rule_b, empty_group, rule_c]
              0 3 (text_stream ''abc'') Map.empty ([], None) of
         Some (Inr (st', m', best)) \<Rightarrow> best = ([ParsedElement ''v'' ''c'' []], Some (2, 3))
       | _ \<Rightarrow> False)
   \<and> (case match_patterns 3 (parse 2 no_store) no_store
              (patterns_rule [0] [] [PDirect rule_b, PDirect empty_group, PDirect rule_c])
              (text_stream ''abc'') 0 3 of
         Some (Inr (captured, st')) \<Rightarrow> captured = [ParsedElement ''v'' ''c'' []]
       | _ \<Rightarrow> False)
   \<and> (case mp_for (parse 2 no_store) [empty_group, rule_b]
              0 3 (text_stream ''abc'') Map.empty ([], None) of
         Some (Inr (st', m', best)) \<Rightarrow> best = ([ParsedElement ''t'' ''b'' []], Some (1, 2))
       | _ \<Rightarrow> False)
   \<and> (case mp_for (parse 2 no_store) [rule_b, empty_group]
              0 3 (text_stream ''abc'') Map.empty ([], None) of
         Some (Inr (st', m', best)) \<Rightarrow> best = ([], Some (0, 0))
       | _ \<Rightarrow> False)
   \<and> (case match_patterns 3 (parse 2 no_store) no_store
              (patterns_rule [0] [] [PDirect rule_b, PDirect empty_group])
              (text_stream ''abc'') 0 3 of
         Some (Inr (captured, st')) \<Rightarrow> captured = []
       | _ \<Rightarrow> False)"
  by code_simp

section \<open>Termination of \<^verbatim>\<open>match_patterns\<close>\<close>

lemma mp_select_cases: "mp_select opt best = Inr b \<Longrightarrow> b = opt \<or> b = best"
  by (auto simp: mp_select_def split: if_splits option.splits prod.splits)

lemma memo_lookup_Some:
  "memo_lookup m p c = Some opt \<Longrightarrow> \<exists>els s e. opt = (els, Some (s, e)) \<and> m (uid p) = Some opt \<and> c \<le> s"
  by (auto simp: memo_lookup_def split: option.splits prod.splits if_splits)

lemma mp_for_advances:
  assumes "keeps_content pf"
    and "\<forall>p \<in> set parsers. \<forall>st'. content st' = raw \<longrightarrow> pf p st' c (Some cl) \<noteq> None"
    and "\<forall>p \<in> set parsers. \<forall>st' els s e st''. content st' = raw \<longrightarrow>
        pf p st' c (Some cl) = Some (Inr ((True, els, Some (s, e)), st'')) \<longrightarrow> els \<noteq> []
        \<longrightarrow> c < e \<and> s < e"
    and "\<forall>u els s e. m u = Some (els, Some (s, e)) \<longrightarrow> els \<noteq> [] \<longrightarrow> s < e"
    and "\<forall>s e. fst best \<noteq> [] \<longrightarrow> snd best = Some (s, e) \<longrightarrow> c < e"
    and "content st = raw"
  shows "(\<exists>r. mp_for pf parsers c cl st m best = Some r)
     \<and> (\<forall>st' m' best'. mp_for pf parsers c cl st m best = Some (Inr (st', m', best')) \<longrightarrow>
           content st' = raw
         \<and> (\<forall>u els s e. m' u = Some (els, Some (s, e)) \<longrightarrow> els \<noteq> [] \<longrightarrow> s < e)
         \<and> (\<forall>s e. fst best' \<noteq> [] \<longrightarrow> snd best' = Some (s, e) \<longrightarrow> c < e))"
  using assms(2-)
proof (induction parsers arbitrary: st m best)
  case Nil
  then show ?case by simp
next
  case (Cons p parsers)
  have ret': "\<forall>q \<in> set parsers. \<forall>st'. content st' = raw \<longrightarrow> pf q st' c (Some cl) \<noteq> None"
    using Cons.prems(1) by simp
  have prog': "\<forall>q \<in> set parsers. \<forall>st' els s e st''. content st' = raw \<longrightarrow>
        pf q st' c (Some cl) = Some (Inr ((True, els, Some (s, e)), st'')) \<longrightarrow> els \<noteq> []
        \<longrightarrow> c < e \<and> s < e"
    using Cons.prems(2) by simp
  note IH = Cons.IH[OF ret' prog']
  show ?case
  proof (cases "memo_lookup m p c")
    case (Some opt)
    then obtain els s e where opt: "opt = (els, Some (s, e))" "m (uid p) = Some opt" "c \<le> s"
      using memo_lookup_Some by blast
    have se: "els \<noteq> [] \<longrightarrow> s < e" using Cons.prems(3) opt by blast
    show ?thesis
    proof (cases "mp_select opt best")
      case (Inl err)
      then show ?thesis using Some by simp
    next
      case (Inr b1)
      have b1: "\<forall>s' e'. fst b1 \<noteq> [] \<longrightarrow> snd b1 = Some (s', e') \<longrightarrow> c < e'"
        using mp_select_cases[OF Inr] opt se Cons.prems(4) by auto
      have eq: "mp_for pf (p # parsers) c cl st m best = mp_for pf parsers c cl st m b1"
        using Some Inr by simp
      show ?thesis
        unfolding eq by (rule IH[OF Cons.prems(3) b1 Cons.prems(5)])
    qed
  next
    case None
    have "pf p st c (Some cl) \<noteq> None"
      using Cons.prems(1,5) by simp
    then obtain r where r: "pf p st c (Some cl) = Some r"
      by blast
    show ?thesis
    proof (cases r)
      case (Inl err)
      then show ?thesis using None r by simp
    next
      case (Inr res)
      obtain ok els pos st1 where res: "res = ((ok, els, pos), st1)" by (cases res) auto
      have st1: "content st1 = raw"
        using assms(1) r Inr res Cons.prems(5) unfolding keeps_content_def by blast
      show ?thesis
      proof (cases ok)
        case False
        have eq: "mp_for pf (p # parsers) c cl st m best = mp_for pf parsers c cl st1 m best"
          using None r Inr res False by simp
        show ?thesis
          unfolding eq by (rule IH[OF Cons.prems(3,4) st1])
      next
        case True
        have pos: "\<forall>s e. els \<noteq> [] \<longrightarrow> pos = Some (s, e) \<longrightarrow> c < e \<and> s < e"
        proof (intro allI impI)
          fix s e
          assume ne: "els \<noteq> []" and "pos = Some (s, e)"
          then have "pf p st c (Some cl) = Some (Inr ((True, els, Some (s, e)), st1))"
            using r Inr res True by simp
          moreover have "p \<in> set (p # parsers)" by simp
          ultimately show "c < e \<and> s < e"
            using Cons.prems(2,5) ne by blast
        qed
        show ?thesis
        proof (cases "mp_select (els, pos) best")
          case (Inl err)
          then show ?thesis using None r Inr res True by simp
        next
          case sel: (Inr b1)
          have b1: "\<forall>s' e'. fst b1 \<noteq> [] \<longrightarrow> snd b1 = Some (s', e') \<longrightarrow> c < e'"
            using mp_select_cases[OF sel] pos Cons.prems(4) by auto
          have m1: "\<forall>u els' s e. (m(uid p \<mapsto> (els, pos))) u = Some (els', Some (s, e))
                       \<longrightarrow> els' \<noteq> [] \<longrightarrow> s < e"
            using Cons.prems(3) pos by (auto split: if_splits)
          have eq: "mp_for pf (p # parsers) c cl st m best
                      = mp_for pf parsers c cl st1 (m(uid p \<mapsto> (els, pos))) b1"
            using None r Inr res True sel by simp
          show ?thesis
            unfolding eq by (rule IH[OF m1 b1 st1])
        qed
      qed
    qed
  qed
qed

lemma mp_while_returns:
  assumes "keeps_content pf"
    and "\<forall>p \<in> set parsers. \<forall>st' c. content st' = raw \<longrightarrow> lo \<le> c \<longrightarrow> c < cl
           \<longrightarrow> pf p st' c (Some cl) \<noteq> None"
    and "\<forall>p \<in> set parsers. \<forall>st' c els s e st''. content st' = raw \<longrightarrow> lo \<le> c \<longrightarrow> c < cl \<longrightarrow>
        pf p st' c (Some cl) = Some (Inr ((True, els, Some (s, e)), st'')) \<longrightarrow> els \<noteq> []
        \<longrightarrow> c < e \<and> s < e"
    and "\<forall>u els s e. m u = Some (els, Some (s, e)) \<longrightarrow> els \<noteq> [] \<longrightarrow> s < e"
    and "nat (cl - c) < k"
    and "content st = raw"
    and "lo \<le> c"
  shows "\<exists>r. mp_while k pf parsers c cl st m captured = Some r"
  using assms(4-)
proof (induction k arbitrary: c st m captured)
  case 0
  then show ?case by simp
next
  case (Suc k)
  show ?case
  proof (cases "c < cl")
    case False
    then show ?thesis by simp
  next
    case True
    have ret: "\<forall>p \<in> set parsers. \<forall>st'. content st' = raw \<longrightarrow> pf p st' c (Some cl) \<noteq> None"
      using assms(2) True Suc.prems(4) by blast
    have prog: "\<forall>p \<in> set parsers. \<forall>st' els s e st''. content st' = raw \<longrightarrow>
        pf p st' c (Some cl) = Some (Inr ((True, els, Some (s, e)), st'')) \<longrightarrow> els \<noteq> []
        \<longrightarrow> c < e \<and> s < e"
      using assms(3) True Suc.prems(4) by blast
    have b0: "\<forall>s e. fst (([], None) :: candidate) \<noteq> [] \<longrightarrow> snd (([], None) :: candidate) = Some (s, e)
                 \<longrightarrow> c < e"
      by simp
    note inv = mp_for_advances[where pf = pf and parsers = parsers and c = c and cl = cl and m = m
        and best = "([], None)" and st = st and raw = raw,
        OF assms(1) ret prog Suc.prems(1) b0 Suc.prems(3)]
    then obtain r where r: "mp_for pf parsers c cl st m ([], None) = Some r" by blast
    show ?thesis
    proof (cases r)
      case (Inl err)
      then show ?thesis using True r by simp
    next
      case (Inr res)
      obtain st1 m1 els pos where res: "res = (st1, m1, (els, pos))" by (cases res) auto
      have m1: "\<forall>u els s e. m1 u = Some (els, Some (s, e)) \<longrightarrow> els \<noteq> [] \<longrightarrow> s < e"
        using inv r Inr res by blast
      have st1: "content st1 = raw"
        using inv r Inr res by blast
      show ?thesis
      proof (cases "els = []")
        case True
        then show ?thesis using \<open>c < cl\<close> r Inr res by simp
      next
        case ne: False
        show ?thesis
        proof (cases pos)
          case None
          then show ?thesis using \<open>c < cl\<close> r Inr res ne by simp
        next
          case (Some se)
          obtain s e where se: "se = (s, e)" by (cases se)
          have "c < e" using inv r Inr res Some se ne by auto
          then have fuel: "nat (cl - e) < k" and lo: "lo \<le> e"
            using Suc.prems(2,4) True by linarith+
          have eq: "mp_while (Suc k) pf parsers c cl st m captured
                      = mp_while k pf parsers e cl st1 m1 (captured @ els)"
            using True r Inr res ne Some se by simp
          show ?thesis
            unfolding eq by (rule Suc.IH[OF m1 fuel st1 lo])
        qed
      qed
    qed
  qed
qed

lemma stream_seek_same:
  "content s1 = content s2 \<Longrightarrow> stream_seek s1 c = stream_seek s2 c"
  by (simp add: stream_seek_def)

lemma parse_from_content:
  "content s1 = content s2 \<Longrightarrow> parse n store r s1 c cl = parse n store r s2 c cl"
  by (cases n) (simp_all add: parse_body_def stream_seek_same[of s1 s2])

lemma search_no_parsers_returns: "\<exists>r. search pf self rx st [] rs olw = Some r"
  by (auto simp: search_def Let_def search_fail_def search_return_def
           split: sum.splits option.splits prod.splits)

lemma search_no_parsers: "search pf self rx st [] rs olw = search pf' self rx st [] rs olw"
  by (simp add: search_def Let_def split: sum.splits option.splits prod.splits)

lemma parse_match_returns:
  "\<exists>r. parse_match pf self rx st c cl = Some r" if "captures self = []"
proof -
  obtain r where r: "search pf self rx st [] (read_size cl c) True = Some r"
    using search_no_parsers_returns by blast
  show ?thesis
    using r that
    by (cases r) (auto simp: parse_match_def parse_return_def split: option.splits)
qed

lemma match_rule_returns:
  assumes "match self = Some rx" "captures self = []"
  shows "parse (Suc n) store self st c cl \<noteq> None"
  using assms parse_match_returns[OF assms(2), of "parse n store" rx _ c cl]
  by (auto simp: parse_body_def split: sum.splits)

lemma first_match_Some:
  "first_match rx lines a = Some (m, lp) \<Longrightarrow> a \<le> lp \<and> (\<exists>line. rsearch rx line = Some m)"
proof (induction lines arbitrary: a)
  case Nil
  then show ?case by simp
next
  case (Cons l lines)
  show ?case
  proof (cases "rsearch rx l")
    case None
    then have "first_match rx lines (a + int (length l)) = Some (m, lp)"
      using Cons.prems by simp
    from Cons.IH[OF this] show ?thesis by auto
  next
    case (Some m')
    then show ?thesis using Cons.prems by auto
  qed
qed

lemma search_pass_Some:
  "search_pass rx st initPos rs olw 0 = Inr (Some (m, mpos))
     \<Longrightarrow> initPos \<le> mpos \<and> (\<exists>line. rsearch rx line = Some m)"
  by (auto simp: search_pass_def Let_def
           split: sum.splits prod.splits option.splits if_splits
           dest!: first_match_Some)

lemma find_match_single:
  assumes "\<not> perform_lookbehind rx"
  shows "find_match rx st rs olw = search_pass rx st (stream_tell st) rs olw 0"
proof -
  have p: "0 \<le> stream_tell st" by (simp add: stream_tell_def)
  have stop: "search_loop rx st (stream_tell st) rs olw (perform_lookbehind rx)
                (0 + regex_lookbehind_step) False = ([], Inr None)"
    by (intro search_loop_stop) simp
  show ?thesis
    unfolding find_match_def
    using search_loop_step[of 0 True rx st "stream_tell st" rs olw "perform_lookbehind rx"]
      assms p stop
    by (auto simp: regex_lookbehind_max_def min_def split: sum.splits option.splits)
qed


lemma search_plain_span:
  assumes "\<not> perform_lookbehind rx"
    and "\<forall>line m. rsearch rx line = Some m \<longrightarrow> m_start m < m_end m"
    and "search pf self rx st [] rs olw = Some (Inr ((Some str, caps, Some ps), st'))"
  shows "stream_tell st \<le> ps \<and> ps < stream_tell st'"
proof -
  have fm: "find_match rx st rs olw = search_pass rx st (stream_tell st) rs olw 0"
    by (rule find_match_single[OF assms(1)])
  obtain m mpos where found: "search_pass rx st (stream_tell st) rs olw 0 = Inr (Some (m, mpos))"
    using assms(3) fm
    by (auto simp: search_def Let_def search_fail_def
             split: sum.splits option.splits prod.splits if_splits)
  have mpos: "stream_tell st \<le> mpos" and ne: "m_start m < m_end m"
    using search_pass_Some[OF found] assms(2) by auto
  show ?thesis
    using assms(3) fm found mpos ne
    by (auto simp: search_def Let_def search_return_def stream_seek_def stream_tell_def
             split: sum.splits option.splits prod.splits if_splits)
qed

lemma match_rule_progress:
  assumes "match self = Some rx" "captures self = []" "\<not> perform_lookbehind rx"
    and "\<forall>line m. rsearch rx line = Some m \<longrightarrow> m_start m < m_end m"
    and "parse (Suc n) store self st c cl = Some (Inr ((True, els, Some (s, e)), st'))"
  shows "c \<le> s \<and> s < e"
proof -
  obtain st1 where sk: "stream_seek st c = Inr st1"
    using assms(5) by (auto simp: parse_body_def split: sum.splits)
  have tell: "stream_tell st1 = c"
    using sk by (auto simp: stream_seek_def stream_tell_def split: if_splits)
  have pm: "parse_match (parse n store) self rx st1 c cl = Some (Inr ((True, els, Some (s, e)), st'))"
    using assms(1,5) sk by (simp add: parse_body_def)
  then obtain str caps where
    "search (parse n store) self rx st1 [] (read_size cl c) True
       = Some (Inr ((Some str, caps, Some s), st'))" and "e = stream_tell st'"
    using assms(2)
    by (auto simp: parse_match_def parse_return_def split: option.splits sum.splits)
  then show ?thesis
    using search_plain_span[OF assms(3,4)] tell by auto
qed

lemma literal_nonempty:
  "s \<noteq> [] \<Longrightarrow> rsearch (literal src s) line = Some m \<Longrightarrow> m_start m < m_end m"
  by (auto simp: literal_def literal_match_def split: option.splits)

lemma literal_plain:
  assumes "s \<noteq> []" "\<not> str_contains ''(?<'' src"
  shows "match (match_rule u tok (literal src s)) = Some (literal src s)
     \<and> captures (match_rule u tok (literal src s)) = []
     \<and> \<not> perform_lookbehind (literal src s)
     \<and> (\<forall>line m. rsearch (literal src s) line = Some m \<longrightarrow> m_start m < m_end m)"
proof -
  have "\<not> perform_lookbehind (literal src s)"
    using assms(2) by (simp add: perform_lookbehind_def literal_def)
  moreover have "\<forall>line m. rsearch (literal src s) line = Some m \<longrightarrow> m_start m < m_end m"
    using literal_nonempty[OF assms(1)] by blast
  ultimately show ?thesis by (simp add: match_rule_def)
qed

text \<open>
  Claim C1, as amended. \<^verbatim>\<open>match_patterns\<close> has no guard for zero-width matches: an
  iteration sets the cursor to the winner's matchEnd and nothing else moves it. For every
  rule, every parser store and every window \<open>[startPos, closePos)\<close>: if every call of
  \<^verbatim>\<open>parse\<close> on a parser of the rule, on the text of the stream and at a cursor of the
  window, returns, and every such call that succeeds with elements yields a non-empty span
  \<open>(s, e)\<close> that ends beyond the cursor it was called at, then the dispatcher returns
  (elements or an exception) within \<open>closePos - startPos\<close> cursor advances: any budget above
  that number is enough. Nothing is asked of a call that fails, nor of one that succeeds
  without elements, as a patterns rule that finds nothing does with the span
  \<open>(cursor, cursor)\<close>. Match rules without capture parsers whose pattern has no \<^verbatim>\<open>(?<\<close>
  and matches no empty text are such parsers (lemmas \<open>match_rule_returns\<close> and
  \<open>match_rule_progress\<close>).
\<close>

theorem dispatch_returns_when_elements_advance:
  assumes "\<forall>ps. get_parsers store self (patterns self) = Inr ps \<longrightarrow>
             (\<forall>p \<in> set ps. \<forall>st' c. content st' = content st \<longrightarrow> startPos \<le> c \<longrightarrow> c < closePos
                \<longrightarrow> parse n store p st' c (Some closePos) \<noteq> None)"
    and "\<forall>ps. get_parsers store self (patterns self) = Inr ps \<longrightarrow>
             (\<forall>p \<in> set ps. \<forall>st' c els s e st''.
                content st' = content st \<longrightarrow> startPos \<le> c \<longrightarrow> c < closePos \<longrightarrow>
                parse n store p st' c (Some closePos) = Some (Inr ((True, els, Some (s, e)), st''))
                \<longrightarrow> els \<noteq> [] \<longrightarrow> c < e \<and> s < e)"
    and "nat (closePos - startPos) < k"
  shows "\<exists>r. match_patterns k (parse n store) store self st startPos closePos = Some r"
proof (cases "get_parsers store self (patterns self)")
  case (Inl err)
  then show ?thesis by (simp add: match_patterns_def)
next
  case (Inr ps)
  show ?thesis
  proof (cases "stream_seek st startPos")
    case (Inl err)
    then show ?thesis using Inr by (simp add: match_patterns_def)
  next
    case sk: (Inr st1)
    have st1: "content st1 = content st"
      by (rule stream_seek_content[OF sk])
    have ret: "\<forall>p \<in> set ps. \<forall>st' c. content st' = content st \<longrightarrow> startPos \<le> c \<longrightarrow> c < closePos
                \<longrightarrow> parse n store p st' c (Some closePos) \<noteq> None"
      using assms(1) Inr by blast
    have prog: "\<forall>p \<in> set ps. \<forall>st' c els s e st''.
        content st' = content st \<longrightarrow> startPos \<le> c \<longrightarrow> c < closePos \<longrightarrow>
        parse n store p st' c (Some closePos) = Some (Inr ((True, els, Some (s, e)), st''))
        \<longrightarrow> els \<noteq> [] \<longrightarrow> c < e \<and> s < e"
      using assms(2) Inr by blast
    have m0: "\<forall>u els s e. (Map.empty :: memo) u = Some (els, Some (s, e)) \<longrightarrow> els \<noteq> [] \<longrightarrow> s < e"
      by simp
    have lo: "startPos \<le> startPos" by simp
    show ?thesis
      using mp_while_returns[where pf = "parse n store" and parsers = ps and cl = closePos
          and c = startPos and lo = startPos and raw = "content st"
          and m = Map.empty and k = k and st = st1 and captured = "[]",
          OF parse_keeps_content ret prog m0 assms(3) st1 lo]
        Inr sk
      by (simp add: match_patterns_def)
  qed
qed

theorem dispatch_returns_when_elements_advance_witness:
  "\<exists>r. match_patterns 4 (parse 3 no_store) no_store group_b_root (text_stream ''aba'') 0 3
         = Some r"
proof -
  have gp: "get_parsers no_store group_b_root (patterns group_b_root) = Inr [group_b]"
    by (simp add: group_b_root_def patterns_rule_def)
  have at0: "parse 3 no_store group_b (text_stream ''aba'') 0 (Some 3)
      = Some (Inr ((True, [ParsedElement ''t'' ''b'' []], Some (0, 2)),
                   \<lparr>content = ''aba'', position = 2\<rparr>))"
    by code_simp
  have at1: "parse 3 no_store group_b (text_stream ''aba'') 1 (Some 3)
      = Some (Inr ((True, [ParsedElement ''t'' ''b'' []], Some (1, 2)),
                   \<lparr>content = ''aba'', position = 2\<rparr>))"
    by code_simp
  have at2: "parse 3 no_store group_b (text_stream ''aba'') 2 (Some 3)
      = Some (Inr ((True, [], Some (2, 2)), \<lparr>content = ''aba'', position = 2\<rparr>))"
    by code_simp
  have cursor: "c = 0 \<or> c = 1 \<or> c = 2" if "0 \<le> c" "c < 3" for c :: int
    using that by arith
  have same: "parse 3 no_store group_b st' c (Some 3)
                = parse 3 no_store group_b (text_stream ''aba'') c (Some 3)"
    if "content st' = content (text_stream ''aba'')" for st' c
    by (rule parse_from_content[OF that])
  have ret: "\<forall>ps. get_parsers no_store group_b_root (patterns group_b_root) = Inr ps \<longrightarrow>
               (\<forall>p \<in> set ps. \<forall>st' c. content st' = content (text_stream ''aba'')
                  \<longrightarrow> 0 \<le> c \<longrightarrow> c < 3 \<longrightarrow> parse 3 no_store p st' c (Some 3) \<noteq> None)"
  proof (intro allI impI ballI)
    fix ps p and st' :: stream and c :: int
    assume "get_parsers no_store group_b_root (patterns group_b_root) = Inr ps" "p \<in> set ps"
      and st: "content st' = content (text_stream ''aba'')" and c: "0 \<le> c" "c < 3"
    then have p: "p = group_b" using gp by auto
    show "parse 3 no_store p st' c (Some 3) \<noteq> None"
      unfolding p same[OF st] using cursor[OF c] at0 at1 at2 by auto
  qed
  have prog: "\<forall>ps. get_parsers no_store group_b_root (patterns group_b_root) = Inr ps \<longrightarrow>
               (\<forall>p \<in> set ps. \<forall>st' c els s e st''.
                  content st' = content (text_stream ''aba'') \<longrightarrow> 0 \<le> c \<longrightarrow> c < 3 \<longrightarrow>
                  parse 3 no_store p st' c (Some 3) = Some (Inr ((True, els, Some (s, e)), st''))
                  \<longrightarrow> els \<noteq> [] \<longrightarrow> c < e \<and> s < e)"
  proof (intro allI impI ballI)
    fix ps p els and st' st'' :: stream and c s e :: int
    assume "get_parsers no_store group_b_root (patterns group_b_root) = Inr ps" "p \<in> set ps"
      and st: "content st' = content (text_stream ''aba'')" and c: "0 \<le> c" "c < 3"
      and run: "parse 3 no_store p st' c (Some 3) = Some (Inr ((True, els, Some (s, e)), st''))"
      and ne: "els \<noteq> []"
    then have p: "p = group_b" using gp by auto
    have run': "parse 3 no_store group_b (text_stream ''aba'') c (Some 3)
                  = Some (Inr ((True, els, Some (s, e)), st''))"
      using run unfolding p same[OF st] .
    show "c < e \<and> s < e"
      using cursor[OF c] run' ne at0 at1 at2 by auto
  qed
  have fuel: "nat (3 - 0) < 4" by simp
  show ?thesis
    by (rule dispatch_returns_when_elements_advance
          [where n = 3 and store = no_store and self = group_b_root
             and st = "text_stream ''aba''"
             and closePos = 3 and startPos = 0 and k = 4, OF ret prog fuel])
qed

lemma mp_for_single_parsed:
  "memo_lookup m p c = None \<Longrightarrow> pf p st c (Some cl) = Some (Inr ((True, els, pos), st1))
     \<Longrightarrow> mp_for pf [p] c cl st m ([], None) = Some (Inr (st1, m(uid p \<mapsto> (els, pos)), (els, pos)))"
  by (simp add: mp_select_def)

lemma mp_for_single_reused:
  "memo_lookup m p c = Some opt \<Longrightarrow> mp_for pf [p] c cl st m ([], None) = Some (Inr (st, m, opt))"
  by (simp add: mp_select_def)

lemma mp_while_repeats:
  assumes "mp_for pf ps c cl st m ([], None) = Some (Inr (st, m, (els, Some (s, c))))"
    and "els \<noteq> []" and "c < cl"
  shows "mp_while k pf ps c cl st m captured = None"
proof (induction k arbitrary: captured)
  case 0
  then show ?case by simp
next
  case (Suc k)
  have "mp_while (Suc k) pf ps c cl st m captured = mp_while k pf ps c cl st m (captured @ els)"
    using assms by simp
  then show ?case using Suc.IH by simp
qed

lemma zero_width_parse:
  assumes "content s = ''ab''"
  shows "parse (Suc n) no_store zero_width s 0 (Some 2)
     = Some (Inr ((True, [ParsedElement ''e'' [] []], Some (0, 0)), text_stream ''ab''))"
proof -
  have sk: "stream_seek s 0 = Inr (text_stream ''ab'')"
    using assms by (cases s) (simp add: stream_seek_def text_stream_def)
  have closed:
    "search (parse 0 no_store) zero_width (literal [] []) (text_stream ''ab'') []
        (read_size (Some 2) 0) True
      = Some (Inr ((Some [], [], Some 0), text_stream ''ab''))"
    by code_simp
  have "search (parse n no_store) zero_width (literal [] []) (text_stream ''ab'') []
        (read_size (Some 2) 0) True
      = Some (Inr ((Some [], [], Some 0), text_stream ''ab''))"
    using closed search_no_parsers[of "parse n no_store" _ _ _ _ _ "parse 0 no_store"] by simp
  then show ?thesis
    using sk
    by (simp add: parse_body_def parse_match_def parse_return_def zero_width_def match_rule_def
          stream_tell_def text_stream_def)
qed

lemma zero_width_step:
  "mp_for (parse (Suc n) no_store) [zero_width] 0 2 (text_stream ''ab'') Map.empty ([], None)
     = Some (Inr (text_stream ''ab'',
                  Map.empty(uid zero_width \<mapsto> ([ParsedElement ''e'' [] []], Some (0, 0))),
                  ([ParsedElement ''e'' [] []], Some (0, 0))))"
proof -
  have c: "content (text_stream ''ab'') = ''ab''" by (simp add: text_stream_def)
  have l: "memo_lookup Map.empty zero_width 0 = None" by (simp add: memo_lookup_def)
  show ?thesis
    by (rule mp_for_single_parsed
          [where pf = "parse (Suc n) no_store" and m = Map.empty and p = zero_width,
           OF l zero_width_parse[OF c]])
qed

lemma zero_width_again:
  "mp_for pf [zero_width] 0 2 (text_stream ''ab'')
      (Map.empty(uid zero_width \<mapsto> ([ParsedElement ''e'' [] []], Some (0, 0)))) ([], None)
     = Some (Inr (text_stream ''ab'',
                  Map.empty(uid zero_width \<mapsto> ([ParsedElement ''e'' [] []], Some (0, 0))),
                  ([ParsedElement ''e'' [] []], Some (0, 0))))"
proof -
  have l: "memo_lookup (Map.empty(uid zero_width \<mapsto> ([ParsedElement ''e'' [] []], Some (0, 0))))
             zero_width 0 = Some ([ParsedElement ''e'' [] []], Some (0, 0))"
    by (simp add: memo_lookup_def)
  show ?thesis
    by (rule mp_for_single_reused[where pf = pf, OF l])
qed

lemma zero_width_dispatch:
  "mp_while k (parse n no_store) [zero_width] 0 2 (text_stream ''ab'') Map.empty [] = None"
proof (cases k)
  case 0
  then show ?thesis by simp
next
  case (Suc k')
  show ?thesis
  proof (cases n)
    case 0
    have "mp_for (parse 0 no_store) [zero_width] 0 2 (text_stream ''ab'') Map.empty ([], None) = None"
      by (simp add: memo_lookup_def)
    then show ?thesis unfolding Suc 0 by simp
  next
    case n: (Suc n')
    have rest: "mp_while k' (parse (Suc n') no_store) [zero_width] 0 2 (text_stream ''ab'')
            (Map.empty(uid zero_width \<mapsto> ([ParsedElement ''e'' [] []], Some (0, 0))))
            ([] @ [ParsedElement ''e'' [] []]) = None"
      by (rule mp_while_repeats
            [where pf = "parse (Suc n') no_store" and ps = "[zero_width]", OF zero_width_again])
         simp_all
    have "mp_while (Suc k') (parse (Suc n') no_store) [zero_width] 0 2 (text_stream ''ab'')
            Map.empty []
          = mp_while k' (parse (Suc n') no_store) [zero_width] 0 2 (text_stream ''ab'')
            (Map.empty(uid zero_width \<mapsto> ([ParsedElement ''e'' [] []], Some (0, 0))))
            ([] @ [ParsedElement ''e'' [] []])"
      by (simp only: mp_while.simps zero_width_step) simp
    then show ?thesis unfolding Suc n using rest by simp
  qed
qed


theorem dispatch_zero_width_counterexample:
  "(\<forall>n. parse n no_store zero_width_root (text_stream ''ab'') 0 (Some 2) = None)
   \<and> (case mp_for (parse 1 no_store) [zero_width] 0 2 (text_stream ''ab'') Map.empty ([], None) of
         Some (Inr (st', m', best)) \<Rightarrow> best = ([ParsedElement ''e'' [] []], Some (0, 0))
       | _ \<Rightarrow> False)"
proof
  show "\<forall>n. parse n no_store zero_width_root (text_stream ''ab'') 0 (Some 2) = None"
  proof
    fix n
    show "parse n no_store zero_width_root (text_stream ''ab'') 0 (Some 2) = None"
    proof (cases n)
      case 0
      then show ?thesis by simp
    next
      case (Suc n')
      have gp: "get_parsers no_store zero_width_root (patterns zero_width_root) = Inr [zero_width]"
        by (simp add: zero_width_root_def patterns_rule_def)
      have sk: "stream_seek (text_stream ''ab'') 0 = Inr (text_stream ''ab'')"
        by (simp add: stream_seek_def text_stream_def)
      have mp: "match_patterns n' (parse n' no_store) no_store zero_width_root
                  (text_stream ''ab'') 0 2 = None"
        by (simp add: match_patterns_def gp sk zero_width_dispatch)
      have shape: "match zero_width_root = None" "begin' zero_width_root = None"
        "patterns zero_width_root \<noteq> []"
        by (simp_all add: zero_width_root_def patterns_rule_def)
      show ?thesis
        unfolding Suc
        by (simp add: parse_body_def sk shape parse_patterns_def mp)
    qed
  qed
next
  show "case mp_for (parse 1 no_store) [zero_width] 0 2 (text_stream ''ab'') Map.empty ([], None) of
         Some (Inr (st', m', best)) \<Rightarrow> best = ([ParsedElement ''e'' [] []], Some (0, 0))
       | _ \<Rightarrow> False"
    by code_simp
qed

end
